theory Spec2Isabelle
  imports Main "HOL-Library.Word"
begin

unbundle bit_operations_syntax

section \<open>Bytes, C strings and memory reads\<close>

type_synonym byte = "8 word"

text \<open>
  A buffer is the list of the bytes it holds. Reading past the end of a buffer, and
  following a pointer that was never given a value, are undefined behaviour in C; the
  model returns a fault for each, so that no result is claimed for an execution the
  language does not define.
\<close>

datatype fault = ReadPastEnd | UninitPointer

text \<open>
  \<open>strdup\<close> allocates a copy of the bytes up to and including the first null byte. On
  a region that holds no null byte it reads past the region.
\<close>

fun strdup :: "byte list \<Rightarrow> fault + byte list" where
  "strdup [] = Inl ReadPastEnd"
| "strdup (c # cs) =
     (if c = 0 then Inr [0]
      else (case strdup cs of Inl f \<Rightarrow> Inl f | Inr r \<Rightarrow> Inr (c # r)))"

text \<open>
  \<open>memcmp a b n\<close> compares byte by byte and stops at the first difference. It is
  \<open>None\<close> when it has to read a byte that one of the buffers does not have.
\<close>

fun memcmp :: "byte list \<Rightarrow> byte list \<Rightarrow> nat \<Rightarrow> int option" where
  "memcmp a b 0 = Some 0"
| "memcmp [] b (Suc n) = None"
| "memcmp (x # a) [] (Suc n) = None"
| "memcmp (x # a) (y # b) (Suc n) =
     (if x = y then memcmp a b n else Some (uint x - uint y))"

section \<open>The thingy table (thingy.c)\<close>

text \<open>
  \<open>struct linked_list\<close>: \<open>length\<close> is an \<open>unsigned char\<close>, below 256 at every call,
  written as a natural number. A \<open>struct linked_list*\<close> is \<open>NULL\<close>, the address of a
  node, or what \<open>malloc\<close> left in a field that was never written: \<open>thingy_table_assign\<close>
  sets \<open>length\<close>, \<open>key\<close> and \<open>value\<close> of a new node and leaves its \<open>next\<close> as it
  came. A chain is the pointer with the nodes behind it.
\<close>

record linked_list =
  ll_length :: nat
  ll_key :: "byte list"
  ll_value :: "byte list"

datatype chain = Null | Uninit | Node linked_list chain

record thingy_table =
  longest_key :: nat
  tvalues :: "byte \<Rightarrow> byte list option"
  mbseqs :: "byte \<Rightarrow> chain"

text \<open>\<open>memset\<close> to 0: every slot and every chain is \<open>NULL\<close>.\<close>

definition thingy_table_init :: thingy_table where
  "thingy_table_init = \<lparr>longest_key = 0, tvalues = (\<lambda>_. None), mbseqs = (\<lambda>_. Null)\<rparr>"

text \<open>
  The \<open>while (*curitem != NULL)\<close> loop of \<open>thingy_table_assign\<close> and the statements
  behind it. The result says whether a new node was appended (\<open>True\<close>) or a value
  replaced in place (\<open>False\<close>). The new node is linked where the walk met \<open>NULL\<close>; its
  own \<open>next\<close> is not set.
\<close>

fun assign_chain ::
  "chain \<Rightarrow> nat \<Rightarrow> byte list \<Rightarrow> byte list \<Rightarrow> fault + (bool \<times> chain)"
where
  "assign_chain Null len key val =
     (case strdup key of
        Inl f \<Rightarrow> Inl f
      | Inr k \<Rightarrow>
          (case strdup val of
             Inl f \<Rightarrow> Inl f
           | Inr v \<Rightarrow> Inr (True, Node \<lparr>ll_length = len, ll_key = k, ll_value = v\<rparr> Uninit)))"
| "assign_chain Uninit len key val = Inl UninitPointer"
| "assign_chain (Node it rest) len key val =
     (if ll_length it = len then
        (case memcmp (ll_key it) key len of
           None \<Rightarrow> Inl ReadPastEnd
         | Some r \<Rightarrow>
             if r = 0 then
               (case strdup val of
                  Inl f \<Rightarrow> Inl f
                | Inr v \<Rightarrow> Inr (False, Node (it\<lparr>ll_value := v\<rparr>) rest))
             else (case assign_chain rest len key val of
                     Inl f \<Rightarrow> Inl f
                   | Inr (app, rest') \<Rightarrow> Inr (app, Node it rest')))
      else (case assign_chain rest len key val of
              Inl f \<Rightarrow> Inl f
            | Inr (app, rest') \<Rightarrow> Inr (app, Node it rest')))"

definition thingy_table_assign ::
  "thingy_table \<Rightarrow> nat \<Rightarrow> byte list \<Rightarrow> byte list \<Rightarrow> fault + (int \<times> thingy_table)"
where
  "thingy_table_assign tbl len key val =
     (if len = 0 then Inr (1, tbl)
      else if len = 1 then
        (case key of
           [] \<Rightarrow> Inl ReadPastEnd
         | k0 # _ \<Rightarrow>
             \<comment> \<open>both branches (slot taken, slot free) store the copy and raise the bound\<close>
             (case strdup val of
                Inl f \<Rightarrow> Inl f
              | Inr v \<Rightarrow>
                  Inr (0, tbl\<lparr>tvalues := (tvalues tbl)(k0 \<mapsto> v),
                              longest_key := (if longest_key tbl < len then len
                                              else longest_key tbl)\<rparr>)))
      else
        (case key of
           [] \<Rightarrow> Inl ReadPastEnd
         | first_char # _ \<Rightarrow>
             (case assign_chain (mbseqs tbl first_char) len key val of
                Inl f \<Rightarrow> Inl f
              | Inr (app, ch) \<Rightarrow>
                  Inr (0, tbl\<lparr>mbseqs := (mbseqs tbl)(first_char := ch),
                              longest_key := (if app \<and> longest_key tbl < len then len
                                              else longest_key tbl)\<rparr>))))"

fun search_chain :: "chain \<Rightarrow> nat \<Rightarrow> byte list \<Rightarrow> fault + byte list option" where
  "search_chain Null len key = Inr None"
| "search_chain Uninit len key = Inl UninitPointer"
| "search_chain (Node it rest) len key =
     (if ll_length it = len then
        (case memcmp key (ll_key it) len of
           None \<Rightarrow> Inl ReadPastEnd
         | Some r \<Rightarrow> if r = 0 then Inr (Some (ll_value it)) else search_chain rest len key)
      else search_chain rest len key)"

text \<open>The key pointer may be \<open>NULL\<close>: \<open>None\<close>. The result \<open>None\<close> is the \<open>NULL\<close> return.\<close>

definition thingy_table_search ::
  "thingy_table \<Rightarrow> nat \<Rightarrow> byte list option \<Rightarrow> fault + byte list option"
where
  "thingy_table_search tbl len key =
     (case key of
        None \<Rightarrow> Inr None
      | Some k \<Rightarrow>
          if len = 0 then Inr None
          else if len > longest_key tbl then Inr None
          else if len = 1 then
            (case k of [] \<Rightarrow> Inl ReadPastEnd | k0 # _ \<Rightarrow> Inr (tvalues tbl k0))
          else
            (case k of
               [] \<Rightarrow> Inl ReadPastEnd
             | k0 # _ \<Rightarrow> search_chain (mbseqs tbl k0) len k))"

text \<open>
  The unlinking loop of \<open>thingy_table_delete\<close>: the return code and the new chain. The
  pointer that led to the node is overwritten with the node's \<open>next\<close>, whatever that
  holds.
\<close>

fun delete_chain :: "chain \<Rightarrow> nat \<Rightarrow> byte list \<Rightarrow> fault + (int \<times> chain)" where
  "delete_chain Null len key = Inr (1, Null)"
| "delete_chain Uninit len key = Inl UninitPointer"
| "delete_chain (Node it rest) len key =
     (if ll_length it = len then
        (case memcmp key (ll_key it) len of
           None \<Rightarrow> Inl ReadPastEnd
         | Some r \<Rightarrow>
             if r = 0 then Inr (0, rest)
             else (case delete_chain rest len key of
                     Inl f \<Rightarrow> Inl f
                   | Inr (rc, rest') \<Rightarrow> Inr (rc, Node it rest')))
      else (case delete_chain rest len key of
              Inl f \<Rightarrow> Inl f
            | Inr (rc, rest') \<Rightarrow> Inr (rc, Node it rest')))"

definition thingy_table_delete ::
  "thingy_table \<Rightarrow> nat \<Rightarrow> byte list option \<Rightarrow> fault + (int \<times> thingy_table)"
where
  "thingy_table_delete tbl len key =
     (case key of
        None \<Rightarrow> Inr (1, tbl)
      | Some k \<Rightarrow>
          if len = 0 then Inr (1, tbl)
          else if len > longest_key tbl then Inr (1, tbl)
          else if len = 1 then
            (case k of
               [] \<Rightarrow> Inl ReadPastEnd
             | k0 # _ \<Rightarrow>
                 if tvalues tbl k0 = None then Inr (1, tbl)
                 else Inr (0, tbl\<lparr>tvalues := (tvalues tbl)(k0 := None)\<rparr>))
          else
            (case k of
               [] \<Rightarrow> Inl ReadPastEnd
             | k0 # _ \<Rightarrow>
                 (case delete_chain (mbseqs tbl k0) len k of
                    Inl f \<Rightarrow> Inl f
                  | Inr (rc, ch) \<Rightarrow>
                      Inr (rc, tbl\<lparr>mbseqs := (mbseqs tbl)(k0 := ch)\<rparr>))))"

definition thingy_table_longest_key :: "thingy_table \<Rightarrow> nat" where
  "thingy_table_longest_key tbl = longest_key tbl"

section \<open>Definition lines and files (thingy.c)\<close>

text \<open>
  Text is a list of \<open>char\<close>; a C string is the text before its first null character.
\<close>

definition cstr :: "string \<Rightarrow> string" where
  "cstr s = takeWhile (\<lambda>c. c \<noteq> CHR 0x00) s"

text \<open>
  \<open>strtok s delim\<close>: skips leading delimiters; \<open>None\<close> when nothing is left; otherwise
  the token up to the next delimiter and the saved position behind that delimiter.
  A later call \<open>strtok(NULL, d)\<close> is \<open>strtok saved d\<close>.
\<close>

definition strtok :: "string \<Rightarrow> string \<Rightarrow> (string \<times> string) option" where
  "strtok s delim =
     (let s1 = dropWhile (\<lambda>c. c \<in> set delim) s
      in if s1 = [] then None
         else Some (takeWhile (\<lambda>c. c \<notin> set delim) s1,
                    drop 1 (dropWhile (\<lambda>c. c \<notin> set delim) s1)))"

definition strspn :: "string \<Rightarrow> string \<Rightarrow> nat" where
  "strspn s accept = length (takeWhile (\<lambda>c. c \<in> set accept) s)"

definition hexdigits :: string where
  "hexdigits = ''0123456789ABCDEFabcdef''"

definition ord :: "char \<Rightarrow> nat" where
  "ord c = of_char c"

definition char_byte :: "char \<Rightarrow> byte" where
  "char_byte c = of_char c"

text \<open>\<open>key[j] |= v\<close>\<close>

definition or_into :: "byte list \<Rightarrow> nat \<Rightarrow> byte \<Rightarrow> byte list" where
  "or_into key j v = key[j := key ! j OR v]"

text \<open>One round of the \<open>for\<close> loop that fills \<open>key\<close> from the hex digits.\<close>

definition key_step :: "string \<Rightarrow> nat \<Rightarrow> byte list \<Rightarrow> nat \<Rightarrow> byte list" where
  "key_step key_pointer keylen_hex key i =
     (let oi = i + keylen_hex mod 2;
          c = key_pointer ! i;
          sh = (if oi mod 2 \<noteq> 0 then 0 else 4);
          key1 = (if ord (CHR ''0'') \<le> ord c \<and> ord c \<le> ord (CHR ''9'')
                  then or_into key (oi div 2) (push_bit sh (char_byte c - char_byte (CHR ''0'')))
                  else key);
          key2 = (if ord (CHR ''A'') \<le> ord c \<and> ord c \<le> ord (CHR ''F'')
                  then or_into key1 (oi div 2)
                         (push_bit sh (char_byte c + 10 - char_byte (CHR ''A'')))
                  else key1);
          key3 = (if ord (CHR ''a'') \<le> ord c \<and> ord c \<le> ord (CHR ''f'')
                  then or_into key2 (oi div 2)
                         (push_bit sh (char_byte c + 10 - char_byte (CHR ''a'')))
                  else key2)
      in key3)"

definition decode_key :: "string \<Rightarrow> byte list" where
  "decode_key key_pointer =
     (let keylen_hex = length key_pointer;
          keylen = (keylen_hex + 1) div 2
      in foldl (key_step key_pointer keylen_hex) (replicate keylen 0) [0..<keylen_hex])"

text \<open>
  The value handed to \<open>thingy_table_assign\<close> is the memory at the value pointer: for the
  two literals \<open>"\n"\<close> and \<open>"\0"\<close> the bytes of the literal with its terminator, for a
  value cut out of the line its characters and the terminator of the line's copy. The
  key handed over is the array \<open>char key[keylen]\<close>: \<open>keylen\<close> bytes and no terminator.
\<close>

definition thingy_table_add_from_string ::
  "thingy_table \<Rightarrow> string \<Rightarrow> fault + (int \<times> thingy_table)"
where
  "thingy_table_add_from_string tbl string =
     (let sd = cstr string in
      case strtok sd ''='' of
        None \<Rightarrow> Inr (1, tbl)
      | Some (key_hex, saved) \<Rightarrow>
          let c0 = (case key_hex of [] \<Rightarrow> CHR 0x00 | c # _ \<Rightarrow> c);
              (val, key_pointer) =
                 (if c0 = CHR ''/'' then (Some [0x0A, 0], tl key_hex)
                  else if c0 = CHR ''*'' then (Some [0, 0], tl key_hex)
                  else (None, key_hex));
              keylen_hex = strspn key_pointer hexdigits
          in if keylen_hex \<noteq> length key_pointer then Inr (2, tbl)
             else
               let keylen = (keylen_hex + 1) div 2
               in if keylen = 0 then Inr (3, tbl)
                  else if keylen > 255 then Inr (4, tbl)
                  else
                    let key = decode_key key_pointer
                    in (case val of
                          Some v \<Rightarrow>
                            (case thingy_table_assign tbl keylen key v of
                               Inl f \<Rightarrow> Inl f
                             | Inr (_, tbl') \<Rightarrow> Inr (0, tbl'))
                        | None \<Rightarrow>
                            (case strtok saved [] of
                               None \<Rightarrow>
                                 (case thingy_table_delete tbl keylen (Some key) of
                                    Inl f \<Rightarrow> Inl f
                                  | Inr (r, tbl') \<Rightarrow> Inr (16 + r, tbl'))
                             | Some (v, _) \<Rightarrow>
                                 (case thingy_table_assign tbl keylen key
                                         (map char_byte v @ [0]) of
                                    Inl f \<Rightarrow> Inl f
                                  | Inr (_, tbl') \<Rightarrow> Inr (0, tbl')))))"

text \<open>
  \<open>fgets(buf, sz, file)\<close> takes at most \<open>sz - 1\<close> characters and stops behind a
  newline; it is \<open>None\<close> at the end of the file. The second component is what is left
  of the file.
\<close>

fun fgets_take :: "nat \<Rightarrow> string \<Rightarrow> string" where
  "fgets_take 0 s = []"
| "fgets_take (Suc n) [] = []"
| "fgets_take (Suc n) (c # cs) = c # (if c = CHR 0x0A then [] else fgets_take n cs)"

definition fgets :: "nat \<Rightarrow> string \<Rightarrow> (string \<times> string) option" where
  "fgets sz s =
     (if s = [] then None
      else let chunk = fgets_take (sz - 1) s in Some (chunk, drop (length chunk) s))"

text \<open>\<open>strrchr s c\<close>: the index of the last \<open>c\<close> in \<open>s\<close>.\<close>

fun strrchr :: "string \<Rightarrow> char \<Rightarrow> nat option" where
  "strrchr [] c = None"
| "strrchr (x # xs) c =
     (case strrchr xs c of
        Some i \<Rightarrow> Some (Suc i)
      | None \<Rightarrow> if x = c then Some 0 else None)"

text \<open>
  The body of the \<open>while\<close> loop of \<open>thingy_table_add_from_file\<close> on what one \<open>fgets\<close>
  has read. \<open>buf\<close> is the buffer once the final newline is erased; the comment test
  looks at \<open>buf[0]\<close>, the emptiness test at the text behind the leading blanks.
\<close>

definition load_line :: "thingy_table \<Rightarrow> int \<Rightarrow> string \<Rightarrow> fault + (int \<times> thingy_table)" where
  "load_line tbl thingy_count chunk =
     (let s = cstr chunk;
          buf = (case strrchr s (CHR 0x0A) of Some i \<Rightarrow> take i s | None \<Rightarrow> s);
          curstr = dropWhile (\<lambda>c. c = CHR '' '' \<or> c = CHR 0x09) buf
      in if curstr = [] then Inr (thingy_count, tbl)
         else if (case buf of [] \<Rightarrow> False | b0 # _ \<Rightarrow> b0 = CHR ''#'')
           then Inr (thingy_count, tbl)
         else (case thingy_table_add_from_string tbl curstr of
                 Inl f \<Rightarrow> Inl f
               | Inr (rc, tbl') \<Rightarrow>
                   Inr (if rc = 0 then thingy_count + 1 else thingy_count, tbl')))"

lemma fgets_take_nonempty: "0 < n \<Longrightarrow> s \<noteq> [] \<Longrightarrow> fgets_take n s \<noteq> []"
  by (cases n; cases s) auto

lemma fgets_shorter:
  assumes "fgets sz s = Some (chunk, rest)" and "1 < sz"
  shows "length rest < length s"
proof -
  from assms have ne: "s \<noteq> []" and c: "chunk = fgets_take (sz - 1) s"
    and r: "rest = drop (length chunk) s"
    by (auto simp: fgets_def Let_def split: if_splits)
  from assms(2) ne have "fgets_take (sz - 1) s \<noteq> []"
    by (intro fgets_take_nonempty) auto
  with c r ne show ?thesis by (cases chunk) auto
qed

function load_loop :: "thingy_table \<Rightarrow> int \<Rightarrow> string \<Rightarrow> fault + (int \<times> thingy_table)" where
  "load_loop tbl thingy_count file =
     (case fgets 1024 file of
        None \<Rightarrow> Inr (thingy_count, tbl)
      | Some (chunk, rest) \<Rightarrow>
          (case load_line tbl thingy_count chunk of
             Inl f \<Rightarrow> Inl f
           | Inr (thingy_count', tbl') \<Rightarrow> load_loop tbl' thingy_count' rest))"
  by pat_completeness auto
termination
  by (relation "measure (\<lambda>(tbl, thingy_count, file). length file)")
     (auto dest: fgets_shorter)

declare load_loop.simps [simp del]

text \<open>
  The file behind \<open>filename\<close> is its text, or \<open>None\<close> when \<open>fopen\<close> fails. The result is
  the return code, what \<open>perror\<close> printed, the caller's counter behind
  \<open>o_thingies_loaded\<close> and the table.
\<close>

definition thingy_table_add_from_file ::
  "thingy_table \<Rightarrow> string option \<Rightarrow> int \<Rightarrow> fault + (int \<times> string list \<times> int \<times> thingy_table)"
where
  "thingy_table_add_from_file tbl file o_thingies_loaded =
     (case file of
        None \<Rightarrow> Inr (1, [''Unable to open thingy table file''], o_thingies_loaded, tbl)
      | Some text \<Rightarrow>
          (case load_loop tbl 0 text of
             Inl f \<Rightarrow> Inl f
           | Inr (thingy_count, tbl') \<Rightarrow> Inr (0, [], thingy_count, tbl')))"

section \<open>Tables built through the interface\<close>

text \<open>
  \<open>struct thingy_table\<close> is opaque to every caller, so a table is what a sequence of
  calls makes of \<open>thingy_table_init\<close>. A sequence with a call that is not defined has no
  result.
\<close>

datatype table_op =
    CallAssign nat "byte list" "byte list"
  | CallDelete nat "byte list option"
  | CallAddFromString string
  | CallAddFromFile "string option"

fun run_op :: "table_op \<Rightarrow> thingy_table \<Rightarrow> fault + thingy_table" where
  "run_op (CallAssign len key val) tbl = map_sum id snd (thingy_table_assign tbl len key val)"
| "run_op (CallDelete len key) tbl = map_sum id snd (thingy_table_delete tbl len key)"
| "run_op (CallAddFromString s) tbl = map_sum id snd (thingy_table_add_from_string tbl s)"
| "run_op (CallAddFromFile file) tbl =
     map_sum id (\<lambda>(rc, err, n, tbl'). tbl') (thingy_table_add_from_file tbl file 0)"

fun run_ops :: "table_op list \<Rightarrow> thingy_table \<Rightarrow> fault + thingy_table" where
  "run_ops [] tbl = Inr tbl"
| "run_ops (x # xs) tbl =
     (case run_op x tbl of Inl f \<Rightarrow> Inl f | Inr tbl' \<Rightarrow> run_ops xs tbl')"

section \<open>Notions used in the statements\<close>

text \<open>The nodes of a chain, from the bucket up to the first pointer that is no node.\<close>

fun chain_nodes :: "chain \<Rightarrow> linked_list list" where
  "chain_nodes Null = []"
| "chain_nodes Uninit = []"
| "chain_nodes (Node it rest) = it # chain_nodes rest"

text \<open>
  \<open>bounded_by_longest\<close>: no stored key is longer than \<open>longest_key\<close>. \<open>extends t t'\<close>:
  the bound has not gone down from \<open>t\<close> to \<open>t'\<close>, and \<open>t'\<close> is bounded when \<open>t\<close> is.
\<close>

definition bounded_by_longest :: "thingy_table \<Rightarrow> bool" where
  "bounded_by_longest t \<longleftrightarrow>
     (\<forall>b. tvalues t b \<noteq> None \<longrightarrow> 1 \<le> longest_key t) \<and>
     (\<forall>b. \<forall>it \<in> set (chain_nodes (mbseqs t b)). ll_length it \<le> longest_key t)"

definition extends :: "thingy_table \<Rightarrow> thingy_table \<Rightarrow> bool" where
  "extends t t' \<longleftrightarrow>
     longest_key t \<le> longest_key t' \<and> (bounded_by_longest t \<longrightarrow> bounded_by_longest t')"

text \<open>
  \<open>holds_value t len key v\<close>: the table holds \<open>v\<close> for the key. For one byte that is
  the direct slot. For more it is a node in the chain of the first byte with that length
  and that value, whose key is the copy \<open>strdup\<close> made of \<open>key\<close> or compares equal to
  \<open>key\<close> over \<open>len\<close> bytes.
\<close>

definition holds_value :: "thingy_table \<Rightarrow> nat \<Rightarrow> byte list \<Rightarrow> byte list \<Rightarrow> bool" where
  "holds_value t len key v \<longleftrightarrow>
     (case key of
        [] \<Rightarrow> False
      | k0 # _ \<Rightarrow>
          if len = 1 then tvalues t k0 = Some v
          else (\<exists>it \<in> set (chain_nodes (mbseqs t k0)).
                  ll_length it = len \<and> ll_value it = v \<and>
                  (strdup key = Inr (ll_key it) \<or> memcmp (ll_key it) key len = Some 0)))"

text \<open>
  The key format in the spec's words: hex digits in pairs, high digit first, an odd
  number of digits read as if a \<open>0\<close> stood in front.
\<close>

definition spec_digit :: "char \<Rightarrow> byte" where
  "spec_digit c =
     (if c \<in> set ''0123456789'' then char_byte c - 0x30
      else if c \<in> set ''ABCDEF'' then char_byte c - 0x37
      else char_byte c - 0x57)"

fun spec_hex_pairs :: "string \<Rightarrow> byte list" where
  "spec_hex_pairs (a # b # r) = (push_bit 4 (spec_digit a) OR spec_digit b) # spec_hex_pairs r"
| "spec_hex_pairs [a] = []"
| "spec_hex_pairs [] = []"

definition spec_hexkey :: "string \<Rightarrow> byte list" where
  "spec_hexkey h = spec_hex_pairs (if odd (length h) then CHR ''0'' # h else h)"














section \<open>The pattern compiler (editor.h)\<close>

datatype parse_error = InvalidHex | InvalidEscape | UnexpectedEnd

definition isxdigit :: "char \<Rightarrow> bool" where
  "isxdigit c \<longleftrightarrow> c \<in> set ''0123456789abcdefABCDEF''"

text \<open>
  Modelled from the spec: the body of \<open>editor_parse_search_string\<close>, which is in
  editor.c and not among the sources; only its declaration is. The grammar and the
  errors are those of the spec's pattern compiler. The place an error reports is an
  offset into the input: for an invalid hex code the offending character, the first of
  the two characters behind \<open>\x\<close> that is not a hex digit; for an invalid escape the
  character behind the backslash. For the unexpected end the spec names no place and
  the model reports offset 0. The spec has no error of its own for a hex code cut short
  by the end of the input; it is reported as the unexpected end.
\<close>

fun parse_from :: "nat \<Rightarrow> string \<Rightarrow> (parse_error \<times> nat) + byte list" where
  "parse_from off [] = Inr []"
| "parse_from off (c # rest) =
     (if c \<noteq> CHR 0x5C then
        (case parse_from (off + 1) rest of
           Inl e \<Rightarrow> Inl e
         | Inr bs \<Rightarrow> Inr (char_byte c # bs))
      else
        (case rest of
           [] \<Rightarrow> Inl (UnexpectedEnd, 0)
         | e # rest1 \<Rightarrow>
             if e = CHR 0x5C then
               (case parse_from (off + 2) rest1 of
                  Inl e \<Rightarrow> Inl e
                | Inr bs \<Rightarrow> Inr (0x5C # bs))
             else if e = CHR ''x'' then
               (case rest1 of
                  [] \<Rightarrow> Inl (UnexpectedEnd, 0)
                | [a] \<Rightarrow> Inl (UnexpectedEnd, 0)
                | a # b # rest2 \<Rightarrow>
                    if isxdigit a \<and> isxdigit b then
                      (case parse_from (off + 4) rest2 of
                         Inl e \<Rightarrow> Inl e
                       | Inr bs \<Rightarrow> Inr ((push_bit 4 (spec_digit a) OR spec_digit b) # bs))
                    else Inl (InvalidHex, if isxdigit a then off + 3 else off + 2))
             else Inl (InvalidEscape, off + 1)))"

definition editor_parse_search_string :: "string \<Rightarrow> (parse_error \<times> nat) + byte list" where
  "editor_parse_search_string inputstr = parse_from 0 inputstr"

section \<open>The byte buffer and the edit history (editor.h)\<close>

text \<open>
  Modelled from the spec: the byte buffer with its four mutators, the recorded actions
  and \<open>editor_undo\<close> / \<open>editor_redo\<close>. Their bodies are in editor.c and the action list in
  its own file, none of them among the sources; editor.h only declares them. The model
  follows the spec's ByteBuffer and EditHistory sections: an insertion goes to \<open>offset\<close>
  or, with \<open>after\<close>, to \<open>offset + 1\<close>, and that place must be within \<open>0..len\<close>; a
  recorded insertion carries the place the byte went to.
\<close>

datatype edit_error = RangeError | EmptyBuffer | NoMoreUndo | NoMoreRedo

datatype edit_action =
    Insert nat "byte list"
  | Delete nat "byte list"
  | Replace nat "byte list" "byte list"

record byte_buffer =
  contents :: "byte list"
  dirty :: bool

definition insert_at ::
  "byte_buffer \<Rightarrow> nat \<Rightarrow> byte \<Rightarrow> bool \<Rightarrow> edit_error + (byte_buffer \<times> edit_action)"
where
  "insert_at buf offset x after =
     (let at = (if after then offset + 1 else offset)
      in if at > length (contents buf) then Inl RangeError
         else Inr (\<lparr>contents = take at (contents buf) @ [x] @ drop at (contents buf),
                     dirty = True\<rparr>,
                   Insert at [x]))"

definition delete_at :: "byte_buffer \<Rightarrow> nat \<Rightarrow> edit_error + (byte_buffer \<times> edit_action)" where
  "delete_at buf offset =
     (if contents buf = [] then Inl EmptyBuffer
      else if offset \<ge> length (contents buf) then Inl RangeError
      else Inr (\<lparr>contents = take offset (contents buf) @ drop (Suc offset) (contents buf),
                  dirty = True\<rparr>,
                Delete offset [contents buf ! offset]))"

definition replace_at ::
  "byte_buffer \<Rightarrow> nat \<Rightarrow> byte \<Rightarrow> edit_error + (byte_buffer \<times> edit_action)"
where
  "replace_at buf offset x =
     (if offset \<ge> length (contents buf) then Inl RangeError
      else Inr (\<lparr>contents = (contents buf)[offset := x], dirty = True\<rparr>,
                Replace offset [contents buf ! offset] [x]))"

text \<open>\<open>delta\<close> is a signed amount; the byte wraps around modulo 256.\<close>

definition increment_at ::
  "byte_buffer \<Rightarrow> nat \<Rightarrow> int \<Rightarrow> edit_error + (byte_buffer \<times> edit_action)"
where
  "increment_at buf offset delta =
     (if offset \<ge> length (contents buf) then Inl RangeError
      else
        let old = contents buf ! offset; new = old + word_of_int delta
        in Inr (\<lparr>contents = (contents buf)[offset := new], dirty = True\<rparr>,
                Replace offset [old] [new]))"

record editor =
  buffer :: byte_buffer
  undo_stack :: "edit_action list"
  redo_stack :: "edit_action list"

definition record_action :: "editor \<Rightarrow> edit_action \<Rightarrow> editor" where
  "record_action e a = e\<lparr>undo_stack := a # undo_stack e, redo_stack := []\<rparr>"

text \<open>The inverse of an action and the action itself, applied to the bytes.\<close>

fun apply_inverse :: "edit_action \<Rightarrow> byte list \<Rightarrow> byte list" where
  "apply_inverse (Insert offset inserted) bs = take offset bs @ drop (offset + length inserted) bs"
| "apply_inverse (Delete offset removed) bs = take offset bs @ removed @ drop offset bs"
| "apply_inverse (Replace offset old new) bs =
     take offset bs @ old @ drop (offset + length old) bs"

fun apply_forward :: "edit_action \<Rightarrow> byte list \<Rightarrow> byte list" where
  "apply_forward (Insert offset inserted) bs = take offset bs @ inserted @ drop offset bs"
| "apply_forward (Delete offset removed) bs = take offset bs @ drop (offset + length removed) bs"
| "apply_forward (Replace offset old new) bs =
     take offset bs @ new @ drop (offset + length new) bs"

definition editor_undo :: "editor \<Rightarrow> edit_error + editor" where
  "editor_undo e =
     (case undo_stack e of
        [] \<Rightarrow> Inl NoMoreUndo
      | a # older \<Rightarrow>
          Inr \<lparr>buffer = \<lparr>contents = apply_inverse a (contents (buffer e)), dirty = True\<rparr>,
               undo_stack = older,
               redo_stack = a # redo_stack e\<rparr>)"

definition editor_redo :: "editor \<Rightarrow> edit_error + editor" where
  "editor_redo e =
     (case redo_stack e of
        [] \<Rightarrow> Inl NoMoreRedo
      | a # later \<Rightarrow>
          Inr \<lparr>buffer = \<lparr>contents = apply_forward a (contents (buffer e)), dirty = True\<rparr>,
               undo_stack = a # undo_stack e,
               redo_stack = later\<rparr>)"

text \<open>
  A mutation as the layer above the core makes it: the mutator is called and what it
  returns is recorded at once.
\<close>

datatype mutation =
    InsertByte nat byte bool
  | DeleteChar nat
  | ReplaceByte nat byte
  | IncrementByte nat int

fun mutate :: "byte_buffer \<Rightarrow> mutation \<Rightarrow> edit_error + (byte_buffer \<times> edit_action)" where
  "mutate buf (InsertByte offset x after) = insert_at buf offset x after"
| "mutate buf (DeleteChar offset) = delete_at buf offset"
| "mutate buf (ReplaceByte offset x) = replace_at buf offset x"
| "mutate buf (IncrementByte offset delta) = increment_at buf offset delta"

definition edit :: "editor \<Rightarrow> mutation \<Rightarrow> edit_error + editor" where
  "edit e m =
     (case mutate (buffer e) m of
        Inl err \<Rightarrow> Inl err
      | Inr (buf, a) \<Rightarrow> Inr (record_action (e\<lparr>buffer := buf\<rparr>) a))"

fun edits :: "editor \<Rightarrow> mutation list \<Rightarrow> edit_error + editor" where
  "edits e [] = Inr e"
| "edits e (m # ms) = (case edit e m of Inl err \<Rightarrow> Inl err | Inr e' \<Rightarrow> edits e' ms)"

fun undos :: "nat \<Rightarrow> editor \<Rightarrow> edit_error + editor" where
  "undos 0 e = Inr e"
| "undos (Suc n) e = (case editor_undo e of Inl err \<Rightarrow> Inl err | Inr e' \<Rightarrow> undos n e')"

section \<open>The bound \<open>longest_key\<close> is kept\<close>

lemma memcmp_numeral [simp]:
  "memcmp [] b (numeral k) = None"
  "memcmp (x # a) [] (numeral k) = None"
  "memcmp (x # a) (y # b) (numeral k) =
     (if x = y then memcmp a b (pred_numeral k) else Some (uint x - uint y))"
  by (simp_all add: numeral_eq_Suc)

lemma memcmp_one [simp]:
  "memcmp [] b 1 = None"
  "memcmp (x # a) [] 1 = None"
  "memcmp (x # a) (y # b) 1 = (if x = y then Some 0 else Some (uint x - uint y))"
  by (simp_all add: One_nat_def del: One_nat_def[symmetric])

lemma assign_chain_lengths:
  "assign_chain ch len key val = Inr (app, ch') \<Longrightarrow>
     ll_length ` set (chain_nodes ch') =
       ll_length ` set (chain_nodes ch) \<union> (if app then {len} else {}) \<and>
     (\<not> app \<longrightarrow> len \<in> ll_length ` set (chain_nodes ch))"
proof (induction ch arbitrary: app ch')
  case Null
  then show ?case by (auto split: sum.splits)
next
  case Uninit
  then show ?case by simp
next
  case (Node it rest)
  show ?case
  proof (cases "ll_length it = len \<and> memcmp (ll_key it) key len = Some 0")
    case True
    with Node.prems show ?thesis by (auto split: sum.splits)
  next
    case False
    with Node.prems obtain rest' where r: "assign_chain rest len key val = Inr (app, rest')"
      and c: "ch' = Node it rest'"
      by (auto split: if_splits option.splits sum.splits)
    from Node.IH[OF r] c show ?thesis by auto
  qed
qed

lemma delete_chain_subset:
  "delete_chain ch len key = Inr (rc, ch') \<Longrightarrow>
     set (chain_nodes ch') \<subseteq> set (chain_nodes ch) \<and> (rc = 0 \<or> rc = 1)"
proof (induction ch arbitrary: rc ch')
  case Null
  then show ?case by auto
next
  case Uninit
  then show ?case by simp
next
  case (Node it rest)
  show ?case
  proof (cases "ll_length it = len \<and> memcmp key (ll_key it) len = Some 0")
    case True
    with Node.prems show ?thesis by auto
  next
    case False
    with Node.prems obtain rest' where r: "delete_chain rest len key = Inr (rc, rest')"
      and c: "ch' = Node it rest'"
      by (auto split: if_splits option.splits sum.splits)
    from Node.IH[OF r] c show ?thesis by auto
  qed
qed

lemma delete_chain_mem:
  "delete_chain ch len key = Inr (rc, ch') \<Longrightarrow>
     x \<in> set (chain_nodes ch') \<Longrightarrow> x \<in> set (chain_nodes ch)"
  using delete_chain_subset by blast

lemma delete_chain_rc:
  "delete_chain ch len key = Inr (rc, ch') \<Longrightarrow> rc = 0 \<or> rc = 1"
  using delete_chain_subset by blast

lemma assign_longest:
  assumes "thingy_table_assign t len key val = Inr (rc, t')"
  shows "longest_key t \<le> longest_key t'"
    and "bounded_by_longest t \<Longrightarrow> bounded_by_longest t'"
    and "bounded_by_longest t \<Longrightarrow> rc = 0 \<Longrightarrow> longest_key t < len \<Longrightarrow> longest_key t' = len"
    and "rc = 0 \<longleftrightarrow> len \<noteq> 0"
proof -
  consider (zero) "len = 0" | (one) "len = 1" | (many) "1 < len" by linarith
  then have "longest_key t \<le> longest_key t' \<and>
             (bounded_by_longest t \<longrightarrow> bounded_by_longest t') \<and>
             (bounded_by_longest t \<longrightarrow> rc = 0 \<longrightarrow> longest_key t < len \<longrightarrow> longest_key t' = len) \<and>
             (rc = 0 \<longleftrightarrow> len \<noteq> 0)"
  proof cases
    case zero
    with assms show ?thesis by (simp add: thingy_table_assign_def)
  next
    case one
    with assms show ?thesis
      by (auto simp: thingy_table_assign_def bounded_by_longest_def
               split: list.splits if_splits sum.splits)
  next
    case many
    with assms obtain c cs app chain where k: "key = c # cs"
      and ch: "assign_chain (mbseqs t c) len key val = Inr (app, chain)"
      and t': "t' = t\<lparr>mbseqs := (mbseqs t)(c := chain),
                      longest_key := (if app \<and> longest_key t < len then len else longest_key t)\<rparr>"
      and rc: "rc = 0"
      by (auto simp: thingy_table_assign_def split: list.splits sum.splits)
    note L = assign_chain_lengths[OF ch]
    have mono: "longest_key t \<le> longest_key t'" using t' by simp
    have inv: "bounded_by_longest t'" if b: "bounded_by_longest t"
      unfolding bounded_by_longest_def
    proof (intro conjI allI ballI impI)
      fix b assume "tvalues t' b \<noteq> None"
      with t' b mono show "1 \<le> longest_key t'"
        by (auto simp: bounded_by_longest_def)
    next
      fix b it assume it: "it \<in> set (chain_nodes (mbseqs t' b))"
      show "ll_length it \<le> longest_key t'"
      proof (cases "b = c")
        case False
        with it t' have "it \<in> set (chain_nodes (mbseqs t b))" by simp
        with b mono show ?thesis by (force simp: bounded_by_longest_def)
      next
        case True
        with it t' have "ll_length it \<in> ll_length ` set (chain_nodes chain)" by simp
        with L have "ll_length it \<in> ll_length ` set (chain_nodes (mbseqs t c)) \<or>
                     (app \<and> ll_length it = len)"
          by (auto split: if_splits)
        then show ?thesis
        proof
          assume "ll_length it \<in> ll_length ` set (chain_nodes (mbseqs t c))"
          with b mono show ?thesis by (force simp: bounded_by_longest_def)
        next
          assume "app \<and> ll_length it = len"
          with t' show ?thesis by simp
        qed
      qed
    qed
    have raise: "longest_key t' = len" if b: "bounded_by_longest t" and lt: "longest_key t < len"
    proof (cases app)
      case True
      with t' lt show ?thesis by simp
    next
      case False
      with L have "len \<in> ll_length ` set (chain_nodes (mbseqs t c))" by simp
      with b have "len \<le> longest_key t" by (force simp: bounded_by_longest_def)
      with lt show ?thesis by simp
    qed
    from mono inv raise rc many show ?thesis by auto
  qed
  then show "longest_key t \<le> longest_key t'"
    and "bounded_by_longest t \<Longrightarrow> bounded_by_longest t'"
    and "bounded_by_longest t \<Longrightarrow> rc = 0 \<Longrightarrow> longest_key t < len \<Longrightarrow> longest_key t' = len"
    and "rc = 0 \<longleftrightarrow> len \<noteq> 0"
    by blast+
qed

lemma delete_longest:
  assumes "thingy_table_delete t len key = Inr (rc, t')"
  shows "longest_key t' = longest_key t"
    and "bounded_by_longest t \<Longrightarrow> bounded_by_longest t'"
    and "rc = 0 \<or> rc = 1"
proof -
  show "longest_key t' = longest_key t"
    using assms
    by (auto simp: thingy_table_delete_def split: option.splits if_splits list.splits sum.splits)
  show "rc = 0 \<or> rc = 1"
    using assms
    by (auto simp: thingy_table_delete_def
             split: option.splits if_splits list.splits sum.splits dest: delete_chain_rc)
  show "bounded_by_longest t'" if b: "bounded_by_longest t"
  proof -
    have "\<forall>b. set (chain_nodes (mbseqs t' b)) \<subseteq> set (chain_nodes (mbseqs t b))"
      using assms
      by (auto simp: thingy_table_delete_def
               split: option.splits if_splits list.splits sum.splits dest: delete_chain_mem)
    moreover have "\<forall>b. tvalues t' b \<noteq> None \<longrightarrow> tvalues t b \<noteq> None"
      using assms
      by (auto simp: thingy_table_delete_def
               split: option.splits if_splits list.splits sum.splits)
    moreover note \<open>longest_key t' = longest_key t\<close> b
    ultimately show ?thesis
      unfolding bounded_by_longest_def by (metis subsetD)
  qed
qed


lemma extends_refl: "extends t t"
  by (simp add: extends_def)

lemma extends_trans: "extends t t' \<Longrightarrow> extends t' t'' \<Longrightarrow> extends t t''"
  by (auto simp: extends_def)

lemma assign_extends: "thingy_table_assign t len key val = Inr (rc, t') \<Longrightarrow> extends t t'"
  by (simp add: extends_def assign_longest)

lemma delete_extends: "thingy_table_delete t len key = Inr (rc, t') \<Longrightarrow> extends t t'"
  by (simp add: extends_def delete_longest)

lemma dropWhile_all: "dropWhile (\<lambda>c. True) xs = []"
  by (induction xs) simp_all

lemma add_from_string_unfold:
  "thingy_table_add_from_string tbl s =
     (case strtok (cstr s) ''='' of
        None \<Rightarrow> Inr (1, tbl)
      | Some (key_hex, saved) \<Rightarrow>
          let c0 = (case key_hex of [] \<Rightarrow> CHR 0x00 | c # _ \<Rightarrow> c);
              val = (if c0 = CHR ''/'' then Some [0x0A, 0]
                     else if c0 = CHR ''*'' then Some [0, 0] else None);
              key_pointer = (if c0 = CHR ''/'' \<or> c0 = CHR ''*'' then tl key_hex else key_hex);
              keylen = (length key_pointer + 1) div 2
          in if strspn key_pointer hexdigits \<noteq> length key_pointer then Inr (2, tbl)
             else if keylen = 0 then Inr (3, tbl)
             else if keylen > 255 then Inr (4, tbl)
             else (case val of
                     Some v \<Rightarrow>
                       (case thingy_table_assign tbl keylen (decode_key key_pointer) v of
                          Inl f \<Rightarrow> Inl f
                        | Inr (_, tbl') \<Rightarrow> Inr (0, tbl'))
                   | None \<Rightarrow>
                       (if saved = [] then
                          (case thingy_table_delete tbl keylen (Some (decode_key key_pointer)) of
                             Inl f \<Rightarrow> Inl f
                           | Inr (r, tbl') \<Rightarrow> Inr (16 + r, tbl'))
                        else
                          (case thingy_table_assign tbl keylen (decode_key key_pointer)
                                  (map char_byte saved @ [0]) of
                             Inl f \<Rightarrow> Inl f
                           | Inr (_, tbl') \<Rightarrow> Inr (0, tbl')))))"
proof (cases "strtok (cstr s) ''=''")
  case None
  then show ?thesis by (simp add: thingy_table_add_from_string_def)
next
  case (Some p)
  obtain key_hex saved where p: "p = (key_hex, saved)" by (cases p)
  have st: "strtok saved [] = (if saved = [] then None else Some (saved, []))"
    by (simp add: strtok_def dropWhile_all)
  show ?thesis
    by (simp add: thingy_table_add_from_string_def Some p Let_def st)
qed


lemma add_from_string_cases:
  assumes "thingy_table_add_from_string t s = Inr (rc, t')"
  obtains (reject) "t' = t" and "rc = 1 \<or> rc = 2 \<or> rc = 3 \<or> rc = 4"
  | (assign) len key val r where "thingy_table_assign t len key val = Inr (r, t')"
      and "rc = 0" and "0 < len"
  | (delete) len key r where "thingy_table_delete t len (Some key) = Inr (r, t')"
      and "rc = 16 + r"
  using assms unfolding add_from_string_unfold Let_def
  by (auto split: option.splits prod.splits if_splits sum.splits)

lemma add_from_string_extends:
  assumes "thingy_table_add_from_string t s = Inr (rc, t')"
  shows "extends t t'"
  using assms
  by (cases rule: add_from_string_cases)
     (auto intro: extends_refl assign_extends delete_extends)

lemma load_line_extends:
  assumes "load_line t n chunk = Inr (n', t')"
  shows "extends t t'"
proof -
  from assms have "t' = t \<or> (\<exists>s rc. thingy_table_add_from_string t s = Inr (rc, t'))"
    unfolding load_line_def Let_def
    by (simp split: if_splits sum.splits prod.splits) blast+
  then show ?thesis
    using extends_refl add_from_string_extends by blast
qed

lemma load_loop_extends: "load_loop t n fl = Inr (n', t') \<Longrightarrow> extends t t'"
proof (induction t n fl rule: load_loop.induct)
  case (1 tbl thingy_count fl)
  note pr = "1.prems"[unfolded load_loop.simps[of tbl thingy_count fl]]
  show ?case
  proof (cases "fgets 1024 fl")
    case None
    with pr show ?thesis by (simp add: extends_refl)
  next
    case (Some p)
    obtain chunk rest where p: "p = (chunk, rest)" by (cases p)
    from pr Some p obtain c1 t1 where l: "load_line tbl thingy_count chunk = Inr (c1, t1)"
      and r: "load_loop t1 c1 rest = Inr (n', t')"
      by (auto split: sum.splits)
    from "1.IH"[OF Some[unfolded p] refl l refl r] load_line_extends[OF l]
    show ?thesis by (rule extends_trans[rotated])
  qed
qed

lemma add_from_file_extends:
  assumes "thingy_table_add_from_file t fl n0 = Inr (rc, err, n, t')"
  shows "extends t t'"
proof (cases fl)
  case None
  with assms show ?thesis by (simp add: thingy_table_add_from_file_def extends_refl)
next
  case (Some s)
  with assms have "load_loop t 0 s = Inr (n, t')"
    by (simp add: thingy_table_add_from_file_def split: sum.splits prod.splits)
  then show ?thesis by (rule load_loop_extends)
qed

lemma run_op_extends:
  assumes "run_op x t = Inr t'"
  shows "extends t t'"
proof (cases x)
  case (CallAssign len key val)
  with assms obtain rc where "thingy_table_assign t len key val = Inr (rc, t')"
    by (cases "thingy_table_assign t len key val") auto
  then show ?thesis by (rule assign_extends)
next
  case (CallDelete len key)
  with assms obtain rc where "thingy_table_delete t len key = Inr (rc, t')"
    by (cases "thingy_table_delete t len key") auto
  then show ?thesis by (rule delete_extends)
next
  case (CallAddFromString s)
  with assms obtain rc where "thingy_table_add_from_string t s = Inr (rc, t')"
    by (cases "thingy_table_add_from_string t s") auto
  then show ?thesis by (rule add_from_string_extends)
next
  case (CallAddFromFile fl)
  with assms obtain rc err n where "thingy_table_add_from_file t fl 0 = Inr (rc, err, n, t')"
    by (cases "thingy_table_add_from_file t fl 0") auto
  then show ?thesis by (rule add_from_file_extends)
qed

lemma run_ops_extends: "run_ops xs t = Inr t' \<Longrightarrow> extends t t'"
proof (induction xs arbitrary: t)
  case Nil
  then show ?case by (simp add: extends_refl)
next
  case (Cons x xs)
  from Cons.prems obtain t1 where x: "run_op x t = Inr t1" and r: "run_ops xs t1 = Inr t'"
    by (auto split: sum.splits)
  from run_op_extends[OF x] Cons.IH[OF r] show ?case by (rule extends_trans)
qed

lemma init_bounded: "bounded_by_longest thingy_table_init"
  by (simp add: bounded_by_longest_def thingy_table_init_def)

lemma built_bounded: "run_ops xs thingy_table_init = Inr t \<Longrightarrow> bounded_by_longest t"
  using run_ops_extends[of xs thingy_table_init t] init_bounded by (simp add: extends_def)



section \<open>Parsing a definition line\<close>

lemma hexdigit_cases:
  "c \<in> set hexdigits \<Longrightarrow> c \<noteq> CHR ''='' \<and> c \<noteq> CHR 0x00 \<and> c \<noteq> CHR ''/'' \<and> c \<noteq> CHR ''*'' \<and>
     c \<noteq> CHR '' '' \<and> c \<noteq> CHR 0x09 \<and> c \<noteq> CHR ''#'' \<and> c \<noteq> CHR 0x0A"
  by (auto simp: hexdigits_def)

lemma cstr_append:
  "CHR 0x00 \<notin> set h \<Longrightarrow> cstr (h @ r) = h @ cstr r"
  by (induction h) (auto simp: cstr_def)

lemma cstr_id: "CHR 0x00 \<notin> set h \<Longrightarrow> cstr h = h"
  by (induction h) (auto simp: cstr_def)

lemma cstr_Cons: "c \<noteq> CHR 0x00 \<Longrightarrow> cstr (c # r) = c # cstr r"
  by (simp add: cstr_def)

lemma strtok_key:
  assumes "h \<noteq> []" and "CHR ''='' \<notin> set h"
  shows "strtok h ''='' = Some (h, [])"
    and "strtok (h @ CHR ''='' # v) ''='' = Some (h, v)"
proof -
  from assms have d0: "dropWhile (\<lambda>c. c = CHR ''='') (h @ r) = h @ r" for r
    by (cases h) auto
  from assms(2) have tw: "takeWhile (\<lambda>c. c \<noteq> CHR ''='') h = h"
    and dw: "dropWhile (\<lambda>c. c \<noteq> CHR ''='') h = []"
    by (induction h) auto
  from assms(2) have tw2: "takeWhile (\<lambda>c. c \<noteq> CHR ''='') (h @ CHR ''='' # v) = h"
    and dw2: "dropWhile (\<lambda>c. c \<noteq> CHR ''='') (h @ CHR ''='' # v) = CHR ''='' # v"
    by (induction h) auto
  show "strtok h ''='' = Some (h, [])"
    by (simp add: strtok_def Let_def d0[of "[]", simplified] tw dw assms(1))
  show "strtok (h @ CHR ''='' # v) ''='' = Some (h, v)"
    by (simp add: strtok_def Let_def d0 tw2 dw2 assms(1))
qed

lemma strspn_hex: "set h \<subseteq> set hexdigits \<Longrightarrow> strspn h hexdigits = length h"
  by (induction h) (auto simp: strspn_def)


text \<open>What a line that starts with its hex key does.\<close>

lemma add_from_string_hexkey:
  assumes "h \<noteq> []" and "set h \<subseteq> set hexdigits"
    and "rest = [] \<and> v = [] \<or> rest = CHR ''='' # v"
  shows "thingy_table_add_from_string t (h @ rest) =
           (if (length h + 1) div 2 > 255 then Inr (4, t)
            else if cstr v = [] then
              (case thingy_table_delete t ((length h + 1) div 2) (Some (decode_key h)) of
                 Inl f \<Rightarrow> Inl f
               | Inr (r, t') \<Rightarrow> Inr (16 + r, t'))
            else
              (case thingy_table_assign t ((length h + 1) div 2) (decode_key h)
                      (map char_byte (cstr v) @ [0]) of
                 Inl f \<Rightarrow> Inl f
               | Inr (_, t') \<Rightarrow> Inr (0, t')))"
proof -
  from assms(2) have nn: "CHR 0x00 \<notin> set h" and ne: "CHR ''='' \<notin> set h"
    using hexdigit_cases by blast+
  from assms(1,2) have c0: "(case h of [] \<Rightarrow> CHR 0x00 | c # _ \<Rightarrow> c) \<noteq> CHR ''/''"
    "(case h of [] \<Rightarrow> CHR 0x00 | c # _ \<Rightarrow> c) \<noteq> CHR ''*''"
    using hexdigit_cases by (cases h; force)+
  have tok: "strtok (cstr (h @ rest)) ''='' = Some (h, cstr v)"
  proof -
    from assms(3) show ?thesis
    proof
      assume e: "rest = [] \<and> v = []"
      have "cstr v = []" using e by (simp add: cstr_def)
      moreover have "cstr (h @ rest) = h" using e cstr_id[OF nn] by simp
      ultimately show ?thesis using strtok_key(1)[OF assms(1) ne] by simp
    next
      assume r: "rest = CHR ''='' # v"
      have "cstr (h @ rest) = h @ CHR ''='' # cstr v"
        unfolding r using nn by (simp add: cstr_append cstr_Cons)
      then show ?thesis using strtok_key(2)[OF assms(1) ne] by simp
    qed
  qed
  from assms(1) have kl: "(length h + 1) div 2 \<noteq> 0" by (cases h) auto
  show ?thesis
    unfolding add_from_string_unfold tok
    using c0 kl strspn_hex[OF assms(2)] by (simp add: Let_def)
qed


lemma add_from_string_special:
  assumes "c = CHR ''/'' \<or> c = CHR ''*''" and "h \<noteq> []" and "set h \<subseteq> set hexdigits"
    and "rest = [] \<or> rest = CHR ''='' # v"
  shows "thingy_table_add_from_string t (c # h @ rest) =
           (if (length h + 1) div 2 > 255 then Inr (4, t)
            else
              (case thingy_table_assign t ((length h + 1) div 2) (decode_key h)
                      (if c = CHR ''/'' then [0x0A, 0] else [0, 0]) of
                 Inl f \<Rightarrow> Inl f
               | Inr (_, t') \<Rightarrow> Inr (0, t')))"
proof -
  from assms(1,3) have nn: "CHR 0x00 \<notin> set (c # h)" and ne: "CHR ''='' \<notin> set (c # h)"
    using hexdigit_cases by auto
  have "\<exists>sv. strtok (cstr (c # h @ rest)) ''='' = Some (c # h, sv)"
  proof -
    from assms(4) show ?thesis
    proof
      assume e: "rest = []"
      have "cstr (c # h @ rest) = c # h" using e cstr_id[OF nn] by simp
      then show ?thesis using strtok_key(1)[OF _ ne] by simp
    next
      assume r: "rest = CHR ''='' # v"
      have "cstr ((c # h) @ rest) = (c # h) @ CHR ''='' # cstr v"
        unfolding r cstr_append[OF nn] by (simp add: cstr_Cons)
      then show ?thesis using strtok_key(2)[OF _ ne, of "cstr v"] by simp
    qed
  qed
  then obtain sv where tok: "strtok (cstr (c # h @ rest)) ''='' = Some (c # h, sv)" ..
  from assms(2) have kl: "(length h + 1) div 2 \<noteq> 0" by (cases h) auto
  show ?thesis
    unfolding add_from_string_unfold tok
    using assms(1) kl strspn_hex[OF assms(3)] by (auto simp: Let_def)
qed

subsection \<open>Odd numbers of hex digits\<close>

lemma key_step_zero:
  "even n \<Longrightarrow> key_step (CHR ''0'' # h) n key 0 = key"
  by (simp add: key_step_def Let_def or_into_def ord_def char_byte_def)

lemma key_step_shift:
  "odd n \<Longrightarrow> key_step (c0 # h) (Suc n) key (Suc i) = key_step h n key i"
  by (simp add: key_step_def Let_def odd_iff_mod_2_eq_one mod_Suc)

lemma decode_key_pad:
  assumes "odd (length h)"
  shows "decode_key (CHR ''0'' # h) = decode_key h"
proof -
  let ?n = "length h"
  have u: "[0..<Suc ?n] = 0 # map Suc [0..<?n]"
    by (simp add: upt_conv_Cons map_Suc_upt del: upt_Suc)
  from assms have k: "(Suc ?n + 1) div 2 = (?n + 1) div 2"
    by (auto elim!: oddE)
  have f: "foldl (key_step (CHR ''0'' # h) (Suc ?n)) key (map Suc xs) =
           foldl (key_step h ?n) key xs" for key xs
    using assms by (induction xs arbitrary: key) (simp_all add: key_step_shift)
  from assms have z: "key_step (CHR ''0'' # h) (Suc ?n) key 0 = key" for key
    by (intro key_step_zero) simp
  have l: "length (CHR ''0'' # h) = Suc ?n" by simp
  show ?thesis
    unfolding decode_key_def Let_def l u k foldl_Cons z f ..
qed

lemma length_key_step: "length (key_step kp n key i) = length key"
  by (simp add: key_step_def Let_def or_into_def)

lemma length_decode_key: "length (decode_key h) = (length h + 1) div 2"
proof -
  have "length (foldl (key_step h n) key xs) = length key" for n key xs
    by (induction xs arbitrary: key) (simp_all add: length_key_step)
  then show ?thesis by (simp add: decode_key_def Let_def)
qed

subsection \<open>The hex key in the spec's words\<close>

lemma digit_class:
  assumes "c \<in> set ''0123456789''"
  shows "ord (CHR ''0'') \<le> ord c \<and> ord c \<le> ord (CHR ''9'') \<and>
         \<not> (ord (CHR ''A'') \<le> ord c \<and> ord c \<le> ord (CHR ''F'')) \<and>
         \<not> (ord (CHR ''a'') \<le> ord c \<and> ord c \<le> ord (CHR ''f'')) \<and>
         spec_digit c = char_byte c - char_byte (CHR ''0'')"
proof -
  from assms have "c = CHR ''0'' \<or> c = CHR ''1'' \<or> c = CHR ''2'' \<or> c = CHR ''3'' \<or>
    c = CHR ''4'' \<or> c = CHR ''5'' \<or> c = CHR ''6'' \<or> c = CHR ''7'' \<or> c = CHR ''8'' \<or>
    c = CHR ''9''" by simp
  then show ?thesis
    by (elim disjE) (simp_all add: ord_def char_byte_def spec_digit_def)
qed

lemma upper_class:
  assumes "c \<in> set ''ABCDEF''"
  shows "\<not> (ord (CHR ''0'') \<le> ord c \<and> ord c \<le> ord (CHR ''9'')) \<and>
         ord (CHR ''A'') \<le> ord c \<and> ord c \<le> ord (CHR ''F'') \<and>
         \<not> (ord (CHR ''a'') \<le> ord c \<and> ord c \<le> ord (CHR ''f'')) \<and>
         spec_digit c = char_byte c + 10 - char_byte (CHR ''A'')"
proof -
  from assms have "c = CHR ''A'' \<or> c = CHR ''B'' \<or> c = CHR ''C'' \<or> c = CHR ''D'' \<or>
    c = CHR ''E'' \<or> c = CHR ''F''" by simp
  then show ?thesis
    by (elim disjE) (simp_all add: ord_def char_byte_def spec_digit_def)
qed

lemma lower_class:
  assumes "c \<in> set ''abcdef''"
  shows "\<not> (ord (CHR ''0'') \<le> ord c \<and> ord c \<le> ord (CHR ''9'')) \<and>
         \<not> (ord (CHR ''A'') \<le> ord c \<and> ord c \<le> ord (CHR ''F'')) \<and>
         ord (CHR ''a'') \<le> ord c \<and> ord c \<le> ord (CHR ''f'') \<and>
         spec_digit c = char_byte c + 10 - char_byte (CHR ''a'')"
proof -
  from assms have "c = CHR ''a'' \<or> c = CHR ''b'' \<or> c = CHR ''c'' \<or> c = CHR ''d'' \<or>
    c = CHR ''e'' \<or> c = CHR ''f''" by simp
  then show ?thesis
    by (elim disjE) (simp_all add: ord_def char_byte_def spec_digit_def)
qed

lemma hexdigit_split:
  "c \<in> set hexdigits \<Longrightarrow>
     c \<in> set ''0123456789'' \<or> c \<in> set ''ABCDEF'' \<or> c \<in> set ''abcdef''"
  unfolding hexdigits_def by simp

text \<open>What one round of the loop adds to a byte, for a hex digit.\<close>

lemma key_step_digit:
  assumes "key_pointer ! i \<in> set hexdigits"
  shows "key_step key_pointer n key i =
           or_into key ((i + n mod 2) div 2)
             (push_bit (if (i + n mod 2) mod 2 \<noteq> 0 then 0 else 4) (spec_digit (key_pointer ! i)))"
proof -
  let ?c = "key_pointer ! i"
  let ?D = "ord (CHR ''0'') \<le> ord ?c \<and> ord ?c \<le> ord (CHR ''9'')"
  let ?U = "ord (CHR ''A'') \<le> ord ?c \<and> ord ?c \<le> ord (CHR ''F'')"
  let ?L = "ord (CHR ''a'') \<le> ord ?c \<and> ord ?c \<le> ord (CHR ''f'')"
  from hexdigit_split[OF assms] show ?thesis
  proof (elim disjE)
    assume "?c \<in> set ''0123456789''"
    from digit_class[OF this] have "?D = True" "?U = False" "?L = False"
      and s: "spec_digit ?c = char_byte ?c - char_byte (CHR ''0'')"
      by blast+
    then show ?thesis unfolding key_step_def Let_def by (simp only: if_True if_False)
  next
    assume "?c \<in> set ''ABCDEF''"
    from upper_class[OF this] have "?D = False" "?U = True" "?L = False"
      and s: "spec_digit ?c = char_byte ?c + 10 - char_byte (CHR ''A'')"
      by blast+
    then show ?thesis unfolding key_step_def Let_def by (simp only: if_True if_False)
  next
    assume "?c \<in> set ''abcdef''"
    from lower_class[OF this] have "?D = False" "?U = False" "?L = True"
      and s: "spec_digit ?c = char_byte ?c + 10 - char_byte (CHR ''a'')"
      by blast+
    then show ?thesis unfolding key_step_def Let_def by (simp only: if_True if_False)
  qed
qed

lemma key_step_high:
  "a \<in> set hexdigits \<Longrightarrow> even n \<Longrightarrow>
     key_step (a # r) n (x # key) 0 = (x OR push_bit 4 (spec_digit a)) # key"
  by (simp add: key_step_digit or_into_def)

lemma key_step_low:
  "b \<in> set hexdigits \<Longrightarrow> even n \<Longrightarrow>
     key_step (a # b # r) n (x # key) (Suc 0) = (x OR spec_digit b) # key"
  by (simp add: key_step_digit or_into_def)

lemma key_step_pair:
  "even n \<Longrightarrow>
     key_step (a # b # r) (Suc (Suc n)) (x # key) (Suc (Suc i)) = x # key_step r n key i"
  by (simp add: key_step_def Let_def or_into_def)

lemma decode_key_pairs:
  assumes "a \<in> set hexdigits" and "b \<in> set hexdigits" and "even (length r)"
  shows "decode_key (a # b # r) = (push_bit 4 (spec_digit a) OR spec_digit b) # decode_key r"
proof -
  let ?m = "length r"
  have u: "[0..<Suc (Suc ?m)] = 0 # Suc 0 # map (Suc \<circ> Suc) [0..<?m]"
    by (simp add: upt_conv_Cons map_Suc_upt del: upt_Suc flip: map_map)
  from assms(3) have k: "(Suc (Suc ?m) + 1) div 2 = Suc ((?m + 1) div 2)"
    by (auto elim!: evenE)
  have f: "foldl (key_step (a # b # r) (Suc (Suc ?m))) (x # key) (map (Suc \<circ> Suc) xs) =
           x # foldl (key_step r ?m) key xs" for x key xs
    using assms(3) by (induction xs arbitrary: key) (simp_all add: key_step_pair)
  have l: "length (a # b # r) = Suc (Suc ?m)" by simp
  have e: "even (Suc (Suc ?m))" using assms(3) by simp
  show ?thesis
    unfolding decode_key_def Let_def l u k replicate_Suc foldl_Cons
      key_step_high[OF assms(1) e] key_step_low[OF assms(2) e] f
    by simp
qed

lemma decode_key_even:
  "set h \<subseteq> set hexdigits \<Longrightarrow> even (length h) \<Longrightarrow> decode_key h = spec_hex_pairs h"
proof (induction h rule: spec_hex_pairs.induct)
  case (1 a b r)
  then show ?case by (simp add: decode_key_pairs)
next
  case (2 a)
  then show ?case by simp
next
  case 3
  show ?case by (simp add: decode_key_def)
qed

lemma decode_key_spec:
  assumes "set h \<subseteq> set hexdigits"
  shows "decode_key h = spec_hexkey h"
proof (cases "odd (length h)")
  case True
  have "set (CHR ''0'' # h) \<subseteq> set hexdigits" using assms by (simp add: hexdigits_def)
  moreover have "even (length (CHR ''0'' # h))" using True by simp
  ultimately have "decode_key (CHR ''0'' # h) = spec_hex_pairs (CHR ''0'' # h)"
    by (rule decode_key_even)
  with True show ?thesis by (simp add: spec_hexkey_def decode_key_pad)
next
  case False
  with assms show ?thesis by (simp add: spec_hexkey_def decode_key_even)
qed

subsection \<open>Lines of a file\<close>

lemma strrchr_none: "c \<notin> set s \<Longrightarrow> strrchr s c = None"
  by (induction s) auto

lemma strrchr_last: "c \<notin> set s \<Longrightarrow> strrchr (s @ [c]) c = Some (length s)"
  by (induction s) auto

lemma cstr_subset: "set (cstr s) \<subseteq> set s"
  unfolding cstr_def by (auto dest: set_takeWhileD)

lemma cstr_cut: "CHR 0x00 \<in> set l \<Longrightarrow> cstr (l @ r) = cstr l"
  unfolding cstr_def by (induction l) auto

lemma load_line_newline:
  assumes "CHR 0x0A \<notin> set l"
  shows "load_line t n (l @ [CHR 0x0A]) = load_line t n l"
proof -
  from assms cstr_subset have nl: "CHR 0x0A \<notin> set (cstr l)" by blast
  have B1: "(case strrchr (cstr (l @ [CHR 0x0A])) (CHR 0x0A) of
           Some i \<Rightarrow> take i (cstr (l @ [CHR 0x0A])) | None \<Rightarrow> cstr (l @ [CHR 0x0A])) = cstr l"
  proof (cases "CHR 0x00 \<in> set l")
    case True
    then show ?thesis by (simp add: cstr_cut strrchr_none[OF nl])
  next
    case False
    then have "cstr (l @ [CHR 0x0A]) = l @ [CHR 0x0A]" and "cstr l = l"
      by (auto intro: cstr_id)
    then show ?thesis using strrchr_last[OF assms] by simp
  qed
  have B2: "(case strrchr (cstr l) (CHR 0x0A) of
           Some i \<Rightarrow> take i (cstr l) | None \<Rightarrow> cstr l) = cstr l"
    by (simp add: strrchr_none[OF nl])
  show ?thesis
    unfolding load_line_def Let_def B1 B2 ..
qed

lemma load_line_plain:
  assumes "l = c # cs" and "c \<noteq> CHR '' ''" and "c \<noteq> CHR 0x09" and "c \<noteq> CHR ''#''"
    and "CHR 0x00 \<notin> set l" and "CHR 0x0A \<notin> set l"
  shows "load_line t n l =
           (case thingy_table_add_from_string t l of
              Inl f \<Rightarrow> Inl f
            | Inr (rc, t') \<Rightarrow> Inr (if rc = 0 then n + 1 else n, t'))"
proof -
  have "cstr l = l" using assms(5) by (rule cstr_id)
  moreover have "strrchr l (CHR 0x0A) = None" using assms(6) by (rule strrchr_none)
  ultimately show ?thesis
    using assms(1-4) by (simp add: load_line_def Let_def)
qed

lemma fgets_take_line:
  "CHR 0x0A \<notin> set l \<Longrightarrow> length l < n \<Longrightarrow> fgets_take n (l @ CHR 0x0A # rest) = l @ [CHR 0x0A]"
proof (induction l arbitrary: n)
  case Nil
  then show ?case by (cases n) auto
next
  case (Cons a l)
  then show ?case by (cases n) auto
qed


lemma fgets_line:
  assumes "CHR 0x0A \<notin> set l" and "length l < sz - 1"
  shows "fgets sz (l @ CHR 0x0A # rest) = Some (l @ [CHR 0x0A], rest)"
  using fgets_take_line[OF assms, of rest] by (simp add: fgets_def)


lemma load_loop_end: "load_loop t n [] = Inr (n, t)"
  by (subst load_loop.simps) (simp add: fgets_def)

lemma load_loop_line:
  assumes "CHR 0x0A \<notin> set l" and "length l < 1023"
  shows "load_loop t n (l @ CHR 0x0A # rest) =
           (case load_line t n l of
              Inl f \<Rightarrow> Inl f
            | Inr (n', t') \<Rightarrow> load_loop t' n' rest)"
proof -
  have "fgets 1024 (l @ CHR 0x0A # rest) = Some (l @ [CHR 0x0A], rest)"
    using assms by (intro fgets_line) auto
  then show ?thesis
    by (subst load_loop.simps) (simp add: load_line_newline[OF assms(1)])
qed

subsection \<open>What an assignment stores\<close>


lemma assign_chain_stores:
  "assign_chain ch len key val = Inr (app, ch') \<Longrightarrow>
     \<exists>it \<in> set (chain_nodes ch'). ll_length it = len \<and> strdup val = Inr (ll_value it) \<and>
        (strdup key = Inr (ll_key it) \<or> memcmp (ll_key it) key len = Some 0)"
proof (induction ch arbitrary: app ch')
  case Null
  then show ?case by (auto split: sum.splits)
next
  case Uninit
  then show ?case by simp
next
  case (Node it rest)
  show ?case
  proof (cases "ll_length it = len \<and> memcmp (ll_key it) key len = Some 0")
    case True
    with Node.prems show ?thesis by (auto split: sum.splits)
  next
    case False
    with Node.prems obtain rest' where r: "assign_chain rest len key val = Inr (app, rest')"
      and c: "ch' = Node it rest'"
      by (auto split: if_splits option.splits sum.splits)
    from Node.IH[OF r] c show ?thesis by auto
  qed
qed

lemma assign_stores:
  assumes "thingy_table_assign t len key val = Inr (rc, t')" and "0 < len"
  shows "\<exists>v. strdup val = Inr v \<and> holds_value t' len key v"
proof (cases "len = 1")
  case True
  with assms show ?thesis
    by (auto simp: thingy_table_assign_def holds_value_def split: list.splits sum.splits)
next
  case False
  with assms obtain k0 ks app ch where k: "key = k0 # ks"
    and ch: "assign_chain (mbseqs t k0) len key val = Inr (app, ch)"
    and m: "mbseqs t' k0 = ch"
    by (auto simp: thingy_table_assign_def split: list.splits sum.splits)
  from assign_chain_stores[OF ch] m k False show ?thesis
    by (auto simp: holds_value_def)
qed

subsection \<open>A definition line in the spec's words\<close>









subsection \<open>The loop over a file, line by line\<close>











subsection \<open>Lines that assign to a key of one byte\<close>




section \<open>The pattern compiler and the history: lemmas\<close>

subsection \<open>Compiling a prefix\<close>

lemma parse_from_append:
  "parse_from off pre = Inr bs \<Longrightarrow>
     parse_from off (pre @ rest) =
       (case parse_from (off + length pre) rest of
          Inl e \<Rightarrow> Inl e
        | Inr bs' \<Rightarrow> Inr (bs @ bs'))"
proof (induction off pre arbitrary: bs rule: parse_from.induct)
  case (1 off)
  then show ?case by (simp split: sum.splits)
next
  case (2 off c rest0)
  show ?case
  proof (cases "c \<noteq> CHR 0x5C")
    case True
    with "2.prems" obtain bs0 where p: "parse_from (off + 1) rest0 = Inr bs0"
      and b: "bs = char_byte c # bs0"
      by (auto split: sum.splits)
    from "2.IH"(1)[OF True p] True b show ?thesis
      by (simp split: sum.splits)
  next
    case False
    then have c: "c = CHR 0x5C" by simp
    show ?thesis
    proof (cases rest0)
      case Nil
      with c "2.prems" show ?thesis by simp
    next
      case (Cons e rest1)
      show ?thesis
      proof (cases "e = CHR 0x5C")
        case True
        with c Cons "2.prems" obtain bs0 where p: "parse_from (off + 2) rest1 = Inr bs0"
          and b: "bs = 0x5C # bs0"
          by (auto split: sum.splits)
        from "2.IH"(2)[OF False Cons True p] c Cons True b show ?thesis
          by (simp split: sum.splits)
      next
        case ne: False
        show ?thesis
        proof (cases "e = CHR ''x''")
          case False
          with c Cons ne "2.prems" show ?thesis by simp
        next
          case True
          with c Cons ne "2.prems" obtain a b rest2 bs0 where r1: "rest1 = a # b # rest2"
            and hx: "isxdigit a \<and> isxdigit b"
            and p: "parse_from (off + 4) rest2 = Inr bs0"
            and b: "bs = (push_bit 4 (spec_digit a) OR spec_digit b) # bs0"
            by (auto split: list.splits sum.splits if_splits)
          from "2.IH"(3)[OF False Cons ne True r1 refl hx p] hx c Cons ne True r1 b show ?thesis
            by (simp add: eval_nat_numeral split: sum.splits)
        qed
      qed
    qed
  qed
qed

subsection \<open>Undoing what was recorded\<close>

lemma mutate_inverse:
  assumes "mutate buf m = Inr (buf', a)"
  shows "apply_inverse a (contents buf') = contents buf"
proof (cases m)
  case (InsertByte offset x after)
  with assms show ?thesis
    by (auto simp: insert_at_def Let_def split: if_splits)
next
  case (DeleteChar offset)
  with assms show ?thesis
    by (auto simp: delete_at_def not_le id_take_nth_drop[symmetric] split: if_splits)
next
  case (ReplaceByte offset x)
  with assms show ?thesis
    by (auto simp: replace_at_def upd_conv_take_nth_drop id_take_nth_drop[symmetric]
             split: if_splits)
next
  case (IncrementByte offset delta)
  with assms show ?thesis
    by (auto simp: increment_at_def Let_def upd_conv_take_nth_drop id_take_nth_drop[symmetric]
             split: if_splits)
qed

lemma edit_undo:
  assumes "edit e m = Inr e1"
    and "contents (buffer e1') = contents (buffer e1)" and "undo_stack e1' = undo_stack e1"
  shows "\<exists>e2. editor_undo e1' = Inr e2 \<and> contents (buffer e2) = contents (buffer e) \<and>
              undo_stack e2 = undo_stack e"
proof -
  from assms(1) obtain buf a where m: "mutate (buffer e) m = Inr (buf, a)"
    and e1: "e1 = record_action (e\<lparr>buffer := buf\<rparr>) a"
    by (auto simp: edit_def split: sum.splits)
  from e1 assms(2,3) have "undo_stack e1' = a # undo_stack e"
    and "contents (buffer e1') = contents buf"
    by (simp_all add: record_action_def)
  with mutate_inverse[OF m] show ?thesis
    by (simp add: editor_undo_def)
qed

lemma undos_last:
  "undos (Suc n) e = (case undos n e of Inl err \<Rightarrow> Inl err | Inr e' \<Rightarrow> editor_undo e')"
proof (induction n arbitrary: e)
  case 0
  show ?case by (simp split: sum.splits)
next
  case (Suc n)
  show ?case
  proof (cases "editor_undo e")
    case (Inl err)
    then show ?thesis by simp
  next
    case (Inr e')
    have l: "undos (Suc (Suc n)) e = undos (Suc n) e'" using Inr by simp
    have r: "undos (Suc n) e = undos n e'" using Inr by simp
    show ?thesis unfolding l r by (rule Suc.IH)
  qed
qed

lemma edits_undos:
  assumes "edits e ms = Inr e1"
    and "contents (buffer e1') = contents (buffer e1)" and "undo_stack e1' = undo_stack e1"
  shows "\<exists>e2. undos (length ms) e1' = Inr e2 \<and> contents (buffer e2) = contents (buffer e) \<and>
              undo_stack e2 = undo_stack e"
  using assms
proof (induction ms arbitrary: e)
  case Nil
  then show ?case by simp
next
  case (Cons m ms)
  from Cons.prems(1) obtain e0 where m: "edit e m = Inr e0" and r: "edits e0 ms = Inr e1"
    by (auto split: sum.splits)
  from Cons.IH[OF r Cons.prems(2,3)] obtain e2 where u: "undos (length ms) e1' = Inr e2"
    and c: "contents (buffer e2) = contents (buffer e0)" and s: "undo_stack e2 = undo_stack e0"
    by blast
  from edit_undo[OF m c s] obtain e3 where "editor_undo e2 = Inr e3"
    and "contents (buffer e3) = contents (buffer e)" and "undo_stack e3 = undo_stack e"
    by blast
  with u show ?case by (simp add: undos_last del: undos.simps(2))
qed

section \<open>Claims about the table\<close>

text \<open>
  C2, at a chain that holds a node. The table is fresh and the keys are handed over as
  string literals, with their terminators. The key 01 02 is assigned "X", which
  returns 0, raises \<open>longest_key\<close> to 2 and links one node into the chain of the byte
  01. The node's \<open>next\<close> is what \<open>malloc\<close> left there. The key 01 02 03, longer than
  \<open>longest_key\<close>, is assigned next: the walk passes the node, whose length is not 3,
  and follows that \<open>next\<close>. The call has no defined result and \<open>longest_key\<close> is not
  raised to 3.
\<close>

theorem assign_longer_key_behind_node:
  "(case thingy_table_assign thingy_table_init 2 [1, 2, 0] [0x58, 0] of
      Inl f \<Rightarrow> False
    | Inr (rc, tbl) \<Rightarrow>
        rc = 0 \<and> longest_key tbl = 2 \<and>
        mbseqs tbl 1 = Node \<lparr>ll_length = 2, ll_key = [1, 2, 0], ll_value = [0x58, 0]\<rparr> Uninit \<and>
        thingy_table_assign tbl 3 [1, 2, 3, 0] [0x59, 0] = Inl UninitPointer)"
  by (simp add: thingy_table_assign_def thingy_table_init_def)

text \<open>
  C9. On a table built through the interface (assign, delete, loading a line or a file)
  \<open>longest_key\<close> is at least the length of every stored key: a taken direct slot means
  the bound is at least 1, and every chain node has a length within the bound. So for a
  query longer than the bound, which \<open>thingy_table_search\<close> answers with not-found and
  \<open>thingy_table_delete\<close> with 1 before they look at the table, there is no entry the
  answer could hide: no node of that length, and no taken slot when the length is 1.
\<close>

theorem longest_key_bounds_stored_keys:
  assumes "run_ops ops thingy_table_init = Inr t"
  shows "(\<forall>b. tvalues t b \<noteq> None \<longrightarrow> 1 \<le> longest_key t) \<and>
         (\<forall>b. \<forall>it \<in> set (chain_nodes (mbseqs t b)). ll_length it \<le> longest_key t) \<and>
         (\<forall>len k. longest_key t < len \<longrightarrow>
            thingy_table_search t len (Some k) = Inr None \<and>
            thingy_table_delete t len (Some k) = Inr (1, t) \<and>
            (len = 1 \<longrightarrow> (\<forall>b. tvalues t b = None)) \<and>
            (\<forall>b. \<forall>it \<in> set (chain_nodes (mbseqs t b)). ll_length it \<noteq> len))"
proof -
  have b: "bounded_by_longest t" using assms by (rule built_bounded)
  then have 1: "\<forall>b. tvalues t b \<noteq> None \<longrightarrow> 1 \<le> longest_key t"
    and 2: "\<forall>b. \<forall>it \<in> set (chain_nodes (mbseqs t b)). ll_length it \<le> longest_key t"
    by (simp_all add: bounded_by_longest_def)
  have 3: "thingy_table_search t len (Some k) = Inr None \<and>
           thingy_table_delete t len (Some k) = Inr (1, t) \<and>
           (len = 1 \<longrightarrow> (\<forall>b. tvalues t b = None)) \<and>
           (\<forall>b. \<forall>it \<in> set (chain_nodes (mbseqs t b)). ll_length it \<noteq> len)"
    if lt: "longest_key t < len" for len k
  proof (intro conjI)
    from lt show "thingy_table_search t len (Some k) = Inr None"
      by (simp add: thingy_table_search_def)
    from lt show "thingy_table_delete t len (Some k) = Inr (1, t)"
      by (simp add: thingy_table_delete_def)
    show "len = 1 \<longrightarrow> (\<forall>b. tvalues t b = None)"
    proof (intro impI allI)
      fix b assume "len = 1"
      with lt have "\<not> 1 \<le> longest_key t" by simp
      with 1 show "tvalues t b = None" by blast
    qed
    show "\<forall>b. \<forall>it \<in> set (chain_nodes (mbseqs t b)). ll_length it \<noteq> len"
    proof (intro allI ballI)
      fix b it assume "it \<in> set (chain_nodes (mbseqs t b))"
      with 2 have "ll_length it \<le> longest_key t" by blast
      with lt show "ll_length it \<noteq> len" by simp
    qed
  qed
  from 1 2 3 show ?thesis by blast
qed

theorem longest_key_bounds_stored_keys_witness:
  "run_ops [CallAddFromString ''0100=X'', CallAssign 1 [0x41] [0x41, 0]] thingy_table_init =
     Inr \<lparr>longest_key = 2, tvalues = (\<lambda>_. None)(0x41 \<mapsto> [0x41, 0]),
          mbseqs = (\<lambda>_. Null)
            (1 := Node \<lparr>ll_length = 2, ll_key = [1, 0], ll_value = [0x58, 0]\<rparr> Uninit)\<rparr> \<and>
   ll_length \<lparr>ll_length = 2, ll_key = [1, 0], ll_value = [0x58, 0]\<rparr> \<le> (2::nat) \<and>
   thingy_table_search
     \<lparr>longest_key = 2, tvalues = (\<lambda>_. None)(0x41 \<mapsto> [0x41, 0]),
      mbseqs = (\<lambda>_. Null)
        (1 := Node \<lparr>ll_length = 2, ll_key = [1, 0], ll_value = [0x58, 0]\<rparr> Uninit)\<rparr>
     3 (Some [1, 0, 0]) = Inr None"
proof -
  let ?n = "\<lparr>ll_length = 2, ll_key = [1, 0], ll_value = [0x58, 0]\<rparr>"
  let ?t = "\<lparr>longest_key = 2, tvalues = (\<lambda>_. None)(0x41 \<mapsto> [0x41, 0]),
             mbseqs = (\<lambda>_. Null)(1 := Node ?n Uninit)\<rparr>"
  have r: "run_ops [CallAddFromString ''0100=X'', CallAssign 1 [0x41] [0x41, 0]] thingy_table_init = Inr ?t"
    apply (simp add: thingy_table_add_from_string_def Let_def cstr_def strtok_def strspn_def
          hexdigits_def decode_key_def key_step_def or_into_def ord_def char_byte_def
          thingy_table_assign_def thingy_table_init_def)
    apply (simp add: numeral_2_eq_2)
    done
  note th = longest_key_bounds_stored_keys[OF r]
  from th[THEN conjunct2, THEN conjunct1]
  have "\<forall>it \<in> set (chain_nodes (mbseqs ?t 1)). ll_length it \<le> longest_key ?t" by blast
  then have a: "ll_length ?n \<le> (2::nat)" by simp
  from th[THEN conjunct2, THEN conjunct2]
  have "thingy_table_search ?t 3 (Some [1, 0, 0]) = Inr None" by simp
  with r a show ?thesis by blast
qed

text \<open>
  C1, at a key that holds a null byte. The table is fresh, the key is the two bytes
  00 01, the value is "X". The assignment succeeds and stores the copy that \<open>strdup\<close>
  makes of the key, which ends at the null byte: one byte. The search that follows
  compares two bytes of that copy and reads past its end.
\<close>

theorem assign_search_key_with_null_byte:
  "(case thingy_table_assign thingy_table_init 2 [0, 1] [0x58, 0] of
      Inl f \<Rightarrow> False
    | Inr (rc, tbl) \<Rightarrow>
        rc = 0 \<and> mbseqs tbl 0 = Node \<lparr>ll_length = 2, ll_key = [0], ll_value = [0x58, 0]\<rparr> Uninit \<and>
        thingy_table_search tbl 2 (Some [0, 1]) = Inl ReadPastEnd)"
  by (simp add: thingy_table_assign_def thingy_table_init_def thingy_table_search_def)

text \<open>
  C3, at the same key. The second assignment of the key 00 01 walks the chain, compares
  two bytes of the one-byte copy and reads past its end: whether the value is replaced
  or a second node appended is left to the byte behind the copy.
\<close>

theorem assign_twice_key_with_null_byte:
  "(case thingy_table_assign thingy_table_init 2 [0, 1] [0x58, 0] of
      Inl f \<Rightarrow> False
    | Inr (rc, tbl) \<Rightarrow>
        rc = 0 \<and> thingy_table_assign tbl 2 [0, 1] [0x59, 0] = Inl ReadPastEnd)"
  by (simp add: thingy_table_assign_def thingy_table_init_def)

text \<open>
  C4. A hex key with an odd number of digits is decoded as the same digits behind one
  \<open>0\<close>: the loop yields the bytes of the pairs of \<open>0\<close> and the digits, and the line does
  to the table what the line with the \<open>0\<close> written out does. The line \<open>123=x\<close> assigns
  "x" to the two bytes 01 23.
\<close>

theorem odd_hexkey_left_padded:
  assumes "set h \<subseteq> set hexdigits" and "odd (length h)"
  shows "decode_key h = spec_hex_pairs (CHR ''0'' # h) \<and>
         thingy_table_add_from_string t (h @ CHR ''='' # v) =
           thingy_table_add_from_string t (CHR ''0'' # h @ CHR ''='' # v) \<and>
         thingy_table_add_from_string t ''123=x'' =
           (case thingy_table_assign t 2 [0x01, 0x23] [0x78, 0] of
              Inl f \<Rightarrow> Inl f
            | Inr (rc, t') \<Rightarrow> Inr (0, t'))"
proof -
  from assms(2) have ne: "h \<noteq> []" by auto
  have d: "decode_key h = spec_hex_pairs (CHR ''0'' # h)"
    using decode_key_spec[OF assms(1)] assms(2) by (simp add: spec_hexkey_def)
  have h0: "CHR ''0'' # h \<noteq> []" "set (CHR ''0'' # h) \<subseteq> set hexdigits"
    using assms(1) by (simp_all add: hexdigits_def)
  have r: "([]::string) = [] \<and> v = [] \<or> CHR ''='' # v = CHR ''='' # v" by simp
  from assms(2) have k: "(length (CHR ''0'' # h) + 1) div 2 = (length h + 1) div 2"
    by (auto elim!: oddE)
  have e: "thingy_table_add_from_string t (h @ CHR ''='' # v) =
           thingy_table_add_from_string t (CHR ''0'' # h @ CHR ''='' # v)"
    using add_from_string_hexkey[OF ne assms(1), of "CHR ''='' # v" v t]
          add_from_string_hexkey[OF h0, of "CHR ''='' # v" v t]
    by (simp only: k decode_key_pad[OF assms(2)] append_Cons) simp
  have x: "''123'' \<noteq> []" "set ''123'' \<subseteq> set hexdigits" by (simp_all add: hexdigits_def)
  have dk: "decode_key ''123'' = [0x01, 0x23]"
    by (simp add: decode_key_spec[OF x(2)] spec_hexkey_def spec_digit_def char_byte_def)
  have c: "thingy_table_add_from_string t ''123=x'' =
             (case thingy_table_assign t 2 [0x01, 0x23] [0x78, 0] of
                Inl f \<Rightarrow> Inl f
              | Inr (rc, t') \<Rightarrow> Inr (0, t'))"
    using add_from_string_hexkey[OF x, of "''=x''" "''x''" t]
    by (simp add: dk cstr_def char_byte_def) (simp add: numeral_2_eq_2)
  from d e c show ?thesis by blast
qed

theorem odd_hexkey_left_padded_witness:
  "decode_key ''123'' = [0x01, 0x23] \<and> decode_key ''123'' \<noteq> [0x12, 0x30] \<and>
   thingy_table_assign thingy_table_init 2 [0x01, 0x23, 0] [0x6F, 0] =
     Inr (0, \<lparr>longest_key = 2, tvalues = (\<lambda>_. None),
              mbseqs = (\<lambda>_. Null)
                (1 := Node \<lparr>ll_length = 2, ll_key = [0x01, 0x23, 0], ll_value = [0x6F, 0]\<rparr>
                        Uninit)\<rparr>) \<and>
   (\<exists>t'. thingy_table_add_from_string
           \<lparr>longest_key = 2, tvalues = (\<lambda>_. None),
            mbseqs = (\<lambda>_. Null)
              (1 := Node \<lparr>ll_length = 2, ll_key = [0x01, 0x23, 0], ll_value = [0x6F, 0]\<rparr>
                      Uninit)\<rparr> ''123=x'' = Inr (0, t') \<and>
         thingy_table_add_from_string
           \<lparr>longest_key = 2, tvalues = (\<lambda>_. None),
            mbseqs = (\<lambda>_. Null)
              (1 := Node \<lparr>ll_length = 2, ll_key = [0x01, 0x23, 0], ll_value = [0x6F, 0]\<rparr>
                      Uninit)\<rparr> ''0123=x'' = Inr (0, t') \<and>
         mbseqs t' 0x01 =
           Node \<lparr>ll_length = 2, ll_key = [0x01, 0x23, 0], ll_value = [0x78, 0]\<rparr> Uninit \<and>
         thingy_table_search t' 2 (Some [0x01, 0x23]) = Inr (Some [0x78, 0]) \<and>
         thingy_table_search t' 2 (Some [0x12, 0x30]) = Inr None)"
proof -
  let ?t0 = "\<lparr>longest_key = 2, tvalues = (\<lambda>_. None),
              mbseqs = (\<lambda>_. Null)
                (1 := Node \<lparr>ll_length = 2, ll_key = [0x01, 0x23, 0], ll_value = [0x6F, 0]\<rparr>
                        Uninit)\<rparr>"
  have h: "set ''123'' \<subseteq> set hexdigits" "odd (length ''123'')"
    by (simp_all add: hexdigits_def)
  note th = odd_hexkey_left_padded[OF h, of ?t0 "''x''"]
  note th1 = th[THEN conjunct1] and th2 = th[THEN conjunct2, THEN conjunct1]
    and th3 = th[THEN conjunct2, THEN conjunct2]
  from th1 have dk: "decode_key ''123'' = [0x01, 0x23]"
    by (simp add: spec_digit_def char_byte_def)
  have t0: "thingy_table_assign thingy_table_init 2 [0x01, 0x23, 0] [0x6F, 0] = Inr (0, ?t0)"
    by (simp add: thingy_table_assign_def thingy_table_init_def)
  obtain t' where a: "thingy_table_assign ?t0 2 [0x01, 0x23] [0x78, 0] = Inr (0, t')"
    and m: "mbseqs t' 0x01 =
              Node \<lparr>ll_length = 2, ll_key = [0x01, 0x23, 0], ll_value = [0x78, 0]\<rparr> Uninit"
    and l: "longest_key t' = 2" and m': "mbseqs t' 0x12 = Null"
    by (simp add: thingy_table_assign_def)
  from th3 a have s: "thingy_table_add_from_string ?t0 ''123=x'' = Inr (0, t')"
    by simp
  have s0: "thingy_table_add_from_string ?t0 ''0123=x'' = Inr (0, t')"
    using th2[symmetric] s by simp
  have "thingy_table_search t' 2 (Some [0x01, 0x23]) = Inr (Some [0x78, 0])"
    and "thingy_table_search t' 2 (Some [0x12, 0x30]) = Inr None"
    using m m' l by (simp_all add: thingy_table_search_def)
  with dk t0 s s0 m show ?thesis by auto
qed

text \<open>
  C6, at two lines, each on a fresh table. A stored value is a C string: its bytes and
  the terminator. The value that consists of the single null byte would be the two
  bytes 00 00. The line \<open>*41\<close> returns 0, and the key 41 then holds the one byte 00:
  the empty string. The line \<open>/0001\<close> returns 0 and stores the newline byte under the
  copy \<open>strdup\<close> makes of the key 00 01, the one byte 00; the search for the key 00 01
  reads past that copy and has no defined result.
\<close>

theorem star_line_stores_empty_string:
  "thingy_table_add_from_string thingy_table_init ''*41'' =
     Inr (0, thingy_table_init\<lparr>tvalues := (tvalues thingy_table_init)(0x41 \<mapsto> [] @ [0]),
                              longest_key := 1\<rparr>) \<and>
   thingy_table_search
     (thingy_table_init\<lparr>tvalues := (tvalues thingy_table_init)(0x41 \<mapsto> [] @ [0]),
                        longest_key := 1\<rparr>) 1 (Some [0x41]) = Inr (Some ([] @ [0])) \<and>
   thingy_table_search
     (thingy_table_init\<lparr>tvalues := (tvalues thingy_table_init)(0x41 \<mapsto> [] @ [0]),
                        longest_key := 1\<rparr>) 1 (Some [0x41]) \<noteq> Inr (Some ([0] @ [0])) \<and>
   thingy_table_add_from_string thingy_table_init ''/0001'' =
     Inr (0, thingy_table_init
               \<lparr>mbseqs := (mbseqs thingy_table_init)
                  (0x00 := Node \<lparr>ll_length = 2, ll_key = [0x00], ll_value = [0x0A] @ [0]\<rparr>
                             Uninit),
                longest_key := 2\<rparr>) \<and>
   thingy_table_search
     (thingy_table_init
        \<lparr>mbseqs := (mbseqs thingy_table_init)
           (0x00 := Node \<lparr>ll_length = 2, ll_key = [0x00], ll_value = [0x0A] @ [0]\<rparr> Uninit),
         longest_key := 2\<rparr>) 2 (Some [0x00, 0x01]) = Inl ReadPastEnd"
proof -
  have 1: "thingy_table_add_from_string thingy_table_init ''*41'' =
     Inr (0, thingy_table_init\<lparr>tvalues := (tvalues thingy_table_init)(0x41 \<mapsto> [] @ [0]),
                              longest_key := 1\<rparr>)"
    by (simp add: thingy_table_add_from_string_def Let_def cstr_def strtok_def strspn_def
          hexdigits_def decode_key_def key_step_def or_into_def ord_def char_byte_def
          thingy_table_assign_def thingy_table_init_def)
  have 2: "thingy_table_search
     (thingy_table_init\<lparr>tvalues := (tvalues thingy_table_init)(0x41 \<mapsto> [] @ [0]),
                        longest_key := 1\<rparr>) 1 (Some [0x41]) = Inr (Some ([] @ [0]))"
    by (simp add: thingy_table_search_def thingy_table_init_def)
  have 3: "thingy_table_add_from_string thingy_table_init ''/0001'' =
     Inr (0, thingy_table_init
               \<lparr>mbseqs := (mbseqs thingy_table_init)
                  (0x00 := Node \<lparr>ll_length = 2, ll_key = [0x00], ll_value = [0x0A] @ [0]\<rparr>
                             Uninit),
                longest_key := 2\<rparr>)"
    apply (simp add: thingy_table_add_from_string_def Let_def cstr_def strtok_def strspn_def
          hexdigits_def decode_key_def key_step_def or_into_def ord_def char_byte_def
          thingy_table_assign_def thingy_table_init_def)
    apply (simp add: numeral_2_eq_2)
    done
  have 4: "thingy_table_search
     (thingy_table_init
        \<lparr>mbseqs := (mbseqs thingy_table_init)
           (0x00 := Node \<lparr>ll_length = 2, ll_key = [0x00], ll_value = [0x0A] @ [0]\<rparr> Uninit),
         longest_key := 2\<rparr>) 2 (Some [0x00, 0x01]) = Inl ReadPastEnd"
    by (simp add: thingy_table_search_def thingy_table_init_def)
  from 1 2 3 4 show ?thesis by simp
qed

text \<open>
  C6 as amended. A line \<open>/HEXKEY\<close> hands \<open>thingy_table_assign\<close> the decoded key and the
  literal \<open>"\n"\<close>, a line \<open>*HEXKEY\<close> the decoded key and the literal \<open>"\0"\<close>, and returns 0
  when the assignment returns. What the table then holds is the copy \<open>strdup\<close> makes of
  the literal: the value that consists of the single newline byte for the first, the
  empty value for the second. It holds it in the direct slot for a key of one byte, and
  otherwise in a node of the key's length whose key is the copy \<open>strdup\<close> made of the
  key or a stored key that compared equal. For a key of one byte the line always
  returns, and a search for the key returns that value.
\<close>

theorem special_lines_assign:
  assumes "h \<noteq> []" and "set h \<subseteq> set hexdigits" and "length h \<le> 510"
    and "c = CHR ''/'' \<and> lit = [0x0A, 0] \<and> stored = [0x0A] \<or>
         c = CHR ''*'' \<and> lit = [0, 0] \<and> stored = []"
  shows "thingy_table_add_from_string t (c # h) =
           (case thingy_table_assign t (length (spec_hexkey h)) (spec_hexkey h) lit of
              Inl f \<Rightarrow> Inl f
            | Inr (rc, t') \<Rightarrow> Inr (0, t')) \<and>
         (\<forall>rc t'. thingy_table_add_from_string t (c # h) = Inr (rc, t') \<longrightarrow>
            rc = 0 \<and>
            holds_value t' (length (spec_hexkey h)) (spec_hexkey h) (stored @ [0])) \<and>
         (length h \<le> 2 \<longrightarrow>
            (\<exists>t'. thingy_table_add_from_string t (c # h) = Inr (0, t') \<and>
                  thingy_table_search t' 1 (Some (spec_hexkey h)) = Inr (Some (stored @ [0]))))"
proof -
  let ?key = "spec_hexkey h"
  let ?len = "length ?key"
  have dk: "decode_key h = ?key" using assms(2) by (rule decode_key_spec)
  have len: "?len = (length h + 1) div 2" using length_decode_key[of h] dk by simp
  from assms(1) have pos: "0 < ?len" unfolding len by (cases h) auto
  from assms(4) have c: "c = CHR ''/'' \<or> c = CHR ''*''"
    and lit: "(if c = CHR ''/'' then [0x0A, 0] else [0, 0]) = lit"
    and kept: "strdup lit = Inr (stored @ [0])"
    by auto
  from assms(3) have kl: "\<not> (length h + 1) div 2 > 255" by simp
  have eq: "thingy_table_add_from_string t (c # h) =
           (case thingy_table_assign t ?len ?key lit of
              Inl f \<Rightarrow> Inl f
            | Inr (rc, t') \<Rightarrow> Inr (0, t'))"
    using add_from_string_special[OF c assms(1,2), of "[]" "[]" t] kl
    by (simp add: dk lit len)
  have held: "rc = 0 \<and> holds_value t' ?len ?key (stored @ [0])"
    if a: "thingy_table_add_from_string t (c # h) = Inr (rc, t')" for rc t'
  proof -
    from a eq obtain rc' where as: "thingy_table_assign t ?len ?key lit = Inr (rc', t')"
      and rc: "rc = 0"
      by (auto split: sum.splits)
    from assign_stores[OF as pos] kept rc show ?thesis by simp
  qed
  have one: "\<exists>t'. thingy_table_add_from_string t (c # h) = Inr (0, t') \<and>
                  thingy_table_search t' 1 (Some ?key) = Inr (Some (stored @ [0]))"
    if "length h \<le> 2"
  proof -
    from that assms(1) have l1: "?len = 1" unfolding len by (cases h) auto
    then obtain k0 where k: "?key = [k0]" by (cases ?key) auto
    show ?thesis
      unfolding eq l1 k using kept
      by (simp add: thingy_table_assign_def thingy_table_search_def)
  qed
  from eq held one show ?thesis by blast
qed

theorem special_lines_assign_witness:
  "(\<exists>t'. thingy_table_add_from_string thingy_table_init ''/0A'' = Inr (0, t') \<and>
         thingy_table_search t' 1 (Some [0x0A]) = Inr (Some [0x0A, 0])) \<and>
   (\<exists>t'. thingy_table_add_from_string thingy_table_init ''*0100'' = Inr (0, t') \<and>
         holds_value t' 2 [0x01, 0x00] [0])"
proof -
  have h1: "''0A'' \<noteq> []" "set ''0A'' \<subseteq> set hexdigits" "length ''0A'' \<le> 510"
    "CHR ''/'' = CHR ''/'' \<and> [0x0A, 0] = [0x0A, 0::byte] \<and> [0x0A] = [0x0A::byte] \<or>
     CHR ''/'' = CHR ''*'' \<and> [0x0A, 0] = [0, 0::byte] \<and> [0x0A] = ([]::byte list)"
    by (simp_all add: hexdigits_def)
  have h2: "''0100'' \<noteq> []" "set ''0100'' \<subseteq> set hexdigits" "length ''0100'' \<le> 510"
    "CHR ''*'' = CHR ''/'' \<and> [0, 0] = [0x0A, 0::byte] \<and> [] = [0x0A::byte] \<or>
     CHR ''*'' = CHR ''*'' \<and> [0, 0] = [0, 0::byte] \<and> [] = ([]::byte list)"
    by (simp_all add: hexdigits_def)
  have k1: "spec_hexkey ''0A'' = [0x0A]" and k2: "spec_hexkey ''0100'' = [0x01, 0x00]"
    by (simp_all add: spec_hexkey_def spec_digit_def char_byte_def)
  note t1 = special_lines_assign[OF h1, of thingy_table_init, unfolded k1]
  note t2 = special_lines_assign[OF h2, of thingy_table_init, unfolded k2]
  from t1[THEN conjunct2, THEN conjunct2]
  have w1: "\<exists>t'. thingy_table_add_from_string thingy_table_init ''/0A'' = Inr (0, t') \<and>
         thingy_table_search t' 1 (Some [0x0A]) = Inr (Some [0x0A, 0])"
    by simp
  obtain t' where a: "thingy_table_add_from_string thingy_table_init ''*0100'' = Inr (0, t')"
    using t2[THEN conjunct1] by (simp add: thingy_table_assign_def thingy_table_init_def)
  from t2[THEN conjunct2, THEN conjunct1, rule_format, OF a]
  have "holds_value t' 2 [0x01, 0x00] [0]" by (simp add: eval_nat_numeral)
  with a w1 show ?thesis by blast
qed

text \<open>
  C10. A line that is a hex key alone, or a hex key followed by \<open>=\<close> and nothing else,
  is a deletion: \<open>thingy_table_add_from_string\<close> calls \<open>thingy_table_delete\<close> with the
  decoded key and returns 16 plus its result, so 16 when the deletion succeeded and 17
  when it did not, never 0. The loop over a file counts only the result 0, so such a
  line leaves the count as it was; a file made of that line alone reports 0.
\<close>

theorem valueless_line_deletes:
  assumes "h \<noteq> []" and "set h \<subseteq> set hexdigits" and "length h \<le> 510"
    and "line = h \<or> line = h @ ''=''"
  shows "thingy_table_add_from_string t line =
           (case thingy_table_delete t ((length h + 1) div 2) (Some (decode_key h)) of
              Inl f \<Rightarrow> Inl f
            | Inr (r, t') \<Rightarrow> Inr (16 + r, t')) \<and>
         (\<forall>rc t'. thingy_table_add_from_string t line = Inr (rc, t') \<longrightarrow> rc = 16 \<or> rc = 17) \<and>
         (\<forall>n n' t'. load_line t n (line @ [CHR 0x0A]) = Inr (n', t') \<longrightarrow> n' = n) \<and>
         (\<forall>rc err n t'. thingy_table_add_from_file t (Some (line @ [CHR 0x0A])) n0 =
                            Inr (rc, err, n, t') \<longrightarrow> n = 0)"
proof -
  let ?del = "thingy_table_delete t ((length h + 1) div 2) (Some (decode_key h))"
  from assms(3) have kl: "\<not> (length h + 1) div 2 > 255" by simp
  have eq: "thingy_table_add_from_string t line =
              (case ?del of Inl f \<Rightarrow> Inl f | Inr (r, t') \<Rightarrow> Inr (16 + r, t'))"
  proof -
    from assms(4) obtain rest where l: "line = h @ rest"
      and r: "rest = [] \<and> ([]::string) = [] \<or> rest = CHR ''='' # []"
      by auto
    show ?thesis
      unfolding l add_from_string_hexkey[OF assms(1,2) r] using kl by (simp add: cstr_def)
  qed
  have rc: "rc = 16 \<or> rc = 17" if "thingy_table_add_from_string t line = Inr (rc, t')" for rc t'
  proof -
    from that eq obtain r where "?del = Inr (r, t')" and "rc = 16 + r"
      by (auto split: sum.splits)
    with delete_longest(3) show ?thesis by fastforce
  qed
  from assms(1,2) obtain c cs where hc: "h = c # cs" and c: "c \<in> set hexdigits"
    by (cases h) auto
  from assms(2) have "CHR 0x00 \<notin> set h" and "CHR 0x0A \<notin> set h"
    using hexdigit_cases by blast+
  with assms(4) have chars: "CHR 0x00 \<notin> set line" "CHR 0x0A \<notin> set line"
    by auto
  from assms(4) hc obtain ls where lc: "line = c # ls" by auto
  have ll: "load_line t n (line @ [CHR 0x0A]) =
              (case thingy_table_add_from_string t line of
                 Inl f \<Rightarrow> Inl f
               | Inr (rc, t') \<Rightarrow> Inr (if rc = 0 then n + 1 else n, t'))" for n
    unfolding load_line_newline[OF chars(2)]
    using hexdigit_cases[OF c] by (intro load_line_plain[OF lc _ _ _ chars]) auto
  have cnt: "n' = n" if "load_line t n (line @ [CHR 0x0A]) = Inr (n', t')" for n n' t'
    using that rc unfolding ll by (fastforce split: sum.splits)
  have fl: "n = 0"
    if f: "thingy_table_add_from_file t (Some (line @ [CHR 0x0A])) n0 = Inr (rc, err, n, t')"
    for rc err n t'
  proof -
    from assms(3,4) have len: "length line < 1023" by auto
    have "load_loop t 0 (line @ [CHR 0x0A]) =
            (case load_line t 0 line of Inl f \<Rightarrow> Inl f | Inr (n', t') \<Rightarrow> Inr (n', t'))"
      using load_loop_line[OF chars(2) len, of t 0 "[]"]
      by (auto simp: load_loop_end split: sum.splits)
    with f have "load_line t 0 line = Inr (n, t')"
      by (auto simp: thingy_table_add_from_file_def split: sum.splits)
    then have "load_line t 0 (line @ [CHR 0x0A]) = Inr (n, t')"
      by (simp add: load_line_newline[OF chars(2)])
    then show ?thesis by (rule cnt)
  qed
  from eq rc cnt fl show ?thesis by blast
qed

theorem valueless_line_deletes_witness:
  "(\<exists>t'. thingy_table_add_from_string
           \<lparr>longest_key = 1, tvalues = (\<lambda>_. None)(0x2A \<mapsto> [0x73, 0]), mbseqs = (\<lambda>_. Null)\<rparr>
           ''2A'' = Inr (16, t') \<and> tvalues t' 0x2A = None) \<and>
   (\<exists>t'. thingy_table_add_from_file
           \<lparr>longest_key = 1, tvalues = (\<lambda>_. None)(0x2A \<mapsto> [0x73, 0]), mbseqs = (\<lambda>_. Null)\<rparr>
           (Some (''2A'' @ [CHR 0x0A])) 7 = Inr (0, [], 0, t') \<and> tvalues t' 0x2A = None)"
proof -
  let ?t = "\<lparr>longest_key = 1, tvalues = (\<lambda>_. None)(0x2A \<mapsto> [0x73, 0]), mbseqs = (\<lambda>_. Null)\<rparr>"
  have h: "''2A'' \<noteq> []" "set ''2A'' \<subseteq> set hexdigits" "length ''2A'' \<le> 510"
    "''2A'' = ''2A'' \<or> ''2A'' = ''2A'' @ ''=''"
    by (simp_all add: hexdigits_def)
  note th = valueless_line_deletes[OF h, of ?t 7]
  have dk: "decode_key ''2A'' = [0x2A]"
    by (simp add: decode_key_def key_step_def or_into_def ord_def char_byte_def Let_def)
  obtain t' where d: "thingy_table_delete ?t 1 (Some [0x2A]) = Inr (0, t')"
    and v: "tvalues t' 0x2A = None"
    by (simp add: thingy_table_delete_def)
  from th dk d have a: "thingy_table_add_from_string ?t ''2A'' = Inr (16, t')" by simp
  have "load_line ?t 0 ''2A'' = Inr (0, t')"
    using a by (simp add: load_line_plain[of "''2A''" "CHR ''2''" "''A''"])
  then have "load_loop ?t 0 (''2A'' @ [CHR 0x0A]) = Inr (0, t')"
    using load_loop_line[of "''2A''" ?t 0 "[]"] by (simp add: load_loop_end)
  then have "thingy_table_add_from_file ?t (Some (''2A'' @ [CHR 0x0A])) 7 = Inr (0, [], 0, t')"
    by (simp add: thingy_table_add_from_file_def)
  with a v show ?thesis by blast
qed

section \<open>Claims about loading a file\<close>




section \<open>Claims about the pattern compiler and the history\<close>

text \<open>
  C7. When the input up to an escape compiles and one of the two characters behind
  \<open>\x\<close> is not a hex digit, the compilation fails with InvalidHex, and the place it
  reports is the offending character: the first of the two that is not a hex digit,
  at offset 2 behind the backslash when that is the first character and at offset 3
  when the first is a hex digit and the second is not.
\<close>

theorem invalid_hex_reports_offending_character:
  assumes "editor_parse_search_string pre = Inr bs"
    and "\<not> isxdigit a \<or> \<not> isxdigit b"
  shows "\<exists>at. editor_parse_search_string (pre @ [CHR 0x5C, CHR ''x'', a, b] @ rest) =
                Inl (InvalidHex, at) \<and>
              at = length pre + (if isxdigit a then 3 else 2) \<and>
              (pre @ [CHR 0x5C, CHR ''x'', a, b] @ rest) ! at = (if isxdigit a then b else a) \<and>
              \<not> isxdigit ((pre @ [CHR 0x5C, CHR ''x'', a, b] @ rest) ! at)"
proof -
  let ?at = "length pre + (if isxdigit a then 3 else 2)"
  from assms(1) have p: "parse_from 0 pre = Inr bs"
    by (simp add: editor_parse_search_string_def)
  have "parse_from (0 + length pre) ([CHR 0x5C, CHR ''x'', a, b] @ rest) =
          Inl (InvalidHex, ?at)"
    using assms(2) by auto
  with parse_from_append[OF p, of "[CHR 0x5C, CHR ''x'', a, b] @ rest"]
  have 1: "editor_parse_search_string (pre @ [CHR 0x5C, CHR ''x'', a, b] @ rest) =
           Inl (InvalidHex, ?at)"
    by (simp add: editor_parse_search_string_def)
  have 2: "(pre @ [CHR 0x5C, CHR ''x'', a, b] @ rest) ! ?at = (if isxdigit a then b else a)"
    by (simp add: nth_append eval_nat_numeral)
  from assms(2) have 3: "\<not> isxdigit (if isxdigit a then b else a)" by auto
  from 1 2 3 show ?thesis by simp
qed

theorem invalid_hex_reports_offending_character_witness:
  "editor_parse_search_string ''ab'' = Inr [0x61, 0x62] \<and>
   isxdigit (CHR ''4'') \<and> \<not> isxdigit (CHR ''Z'') \<and>
   editor_parse_search_string (''ab'' @ [CHR 0x5C, CHR ''x'', CHR ''4'', CHR ''Z''] @ ''c'') =
     Inl (InvalidHex, 5) \<and>
   (''ab'' @ [CHR 0x5C, CHR ''x'', CHR ''4'', CHR ''Z''] @ ''c'') ! 5 = CHR ''Z'' \<and>
   editor_parse_search_string (''ab'' @ [CHR 0x5C, CHR ''x'', CHR ''Z'', CHR ''Z''] @ ''c'') =
     Inl (InvalidHex, 4) \<and>
   (''ab'' @ [CHR 0x5C, CHR ''x'', CHR ''Z'', CHR ''Z''] @ ''c'') ! 4 = CHR ''Z''"
proof -
  have p: "editor_parse_search_string ''ab'' = Inr [0x61, 0x62]"
    by (simp add: editor_parse_search_string_def char_byte_def)
  have x: "isxdigit (CHR ''4'')" and nz: "\<not> isxdigit (CHR ''Z'')"
    by (simp_all add: isxdigit_def)
  have z1: "\<not> isxdigit (CHR ''4'') \<or> \<not> isxdigit (CHR ''Z'')"
    and z2: "\<not> isxdigit (CHR ''Z'') \<or> \<not> isxdigit (CHR ''Z'')"
    using nz by simp_all
  from invalid_hex_reports_offending_character[OF p z1, of "''c''"] x
  have a: "editor_parse_search_string (''ab'' @ [CHR 0x5C, CHR ''x'', CHR ''4'', CHR ''Z''] @ ''c'') =
             Inl (InvalidHex, 5)"
    by simp
  from invalid_hex_reports_offending_character[OF p z2, of "''c''"] nz
  have b: "editor_parse_search_string (''ab'' @ [CHR 0x5C, CHR ''x'', CHR ''Z'', CHR ''Z''] @ ''c'') =
             Inl (InvalidHex, 4)"
    by simp
  from p x nz a b show ?thesis by simp
qed

text \<open>
  C8. Whatever the buffer and the history, after a sequence of mutations that all
  succeeded, each recorded as it was made, as many calls of undo as there were mutations
  all succeed and leave the bytes of the buffer, and so its length, as they were before
  the sequence.
\<close>

theorem undo_restores_buffer:
  assumes "edits e ms = Inr e1"
  shows "\<exists>e2. undos (length ms) e1 = Inr e2 \<and>
              contents (buffer e2) = contents (buffer e) \<and>
              length (contents (buffer e2)) = length (contents (buffer e))"
  using edits_undos[OF assms refl refl] by auto

theorem undo_restores_buffer_witness:
  "edits \<lparr>buffer = \<lparr>contents = [1, 2, 3], dirty = False\<rparr>, undo_stack = [], redo_stack = []\<rparr>
     [InsertByte 2 9 True, DeleteChar 0, IncrementByte 0 (- 3), ReplaceByte 2 7] =
     Inr \<lparr>buffer = \<lparr>contents = [255, 3, 7], dirty = True\<rparr>,
          undo_stack = [Replace 2 [9] [7], Replace 0 [2] [255], Delete 0 [1], Insert 3 [9]],
          redo_stack = []\<rparr> \<and>
   (\<exists>e2. undos 4 \<lparr>buffer = \<lparr>contents = [255, 3, 7], dirty = True\<rparr>,
          undo_stack = [Replace 2 [9] [7], Replace 0 [2] [255], Delete 0 [1], Insert 3 [9]],
          redo_stack = []\<rparr> = Inr e2 \<and> contents (buffer e2) = [1, 2, 3])"
proof -
  have e: "edits \<lparr>buffer = \<lparr>contents = [1, 2, 3], dirty = False\<rparr>, undo_stack = [], redo_stack = []\<rparr>
     [InsertByte 2 9 True, DeleteChar 0, IncrementByte 0 (- 3), ReplaceByte 2 7] =
     Inr \<lparr>buffer = \<lparr>contents = [255, 3, 7], dirty = True\<rparr>,
          undo_stack = [Replace 2 [9] [7], Replace 0 [2] [255], Delete 0 [1], Insert 3 [9]],
          redo_stack = []\<rparr>"
    by (simp add: edit_def insert_at_def delete_at_def replace_at_def increment_at_def
                  record_action_def Let_def)
  have l: "length [InsertByte 2 9 True, DeleteChar 0, IncrementByte 0 (- 3), ReplaceByte 2 7] = 4"
    by simp
  from undo_restores_buffer[OF e, unfolded l] obtain e2
    where u: "undos 4 \<lparr>buffer = \<lparr>contents = [255, 3, 7], dirty = True\<rparr>,
          undo_stack = [Replace 2 [9] [7], Replace 0 [2] [255], Delete 0 [1], Insert 3 [9]],
          redo_stack = []\<rparr> = Inr e2"
      and c: "contents (buffer e2) = contents (buffer \<lparr>buffer = \<lparr>contents = [1, 2, 3],
          dirty = False\<rparr>, undo_stack = [], redo_stack = []\<rparr>)"
    by blast
  from c have "contents (buffer e2) = [1, 2, 3]" by simp
  with u e show ?thesis by blast
qed

end
